theory Spec2Isabelle
  imports Complex_Main "HOL-Library.Multiset" "HOL-Library.Product_Lexorder" "HOL-Library.AList"
begin

section \<open>Strings\<close>

text \<open>
  A JavaScript string is modelled as a \<^typ>\<open>string\<close>: one \<^typ>\<open>char\<close> per UTF-16 code unit,
  for code units below 256 (ASCII and Latin-1). Playlists, URLs and header names with code
  units above 255 are outside the model.
\<close>

definition isWhiteSpace :: "char \<Rightarrow> bool" where
  \<comment> \<open>The class \<open>\s\<close> of a regular expression and the characters \<open>trim()\<close> strips:
      TAB, LF, VT, FF, CR, SPACE and NBSP are its members below 256.\<close>
  "isWhiteSpace c \<longleftrightarrow> c \<in> set [CHR 0x09, CHR 0x0A, CHR 0x0B, CHR 0x0C, CHR 0x0D, CHR 0x20, CHR 0xA0]"

definition isLineTerminator :: "char \<Rightarrow> bool" where
  "isLineTerminator c \<longleftrightarrow> c = CHR 0x0A \<or> c = CHR 0x0D"

definition isDigit :: "char \<Rightarrow> bool" where
  \<comment> \<open>The class \<open>\d\<close>.\<close>
  "isDigit c \<longleftrightarrow> c \<in> set ''0123456789''"

definition isAlnum :: "char \<Rightarrow> bool" where
  \<comment> \<open>The class \<open>[a-zA-Z0-9]\<close>.\<close>
  "isAlnum c \<longleftrightarrow>
     (let n = (of_char c :: nat)
      in (97 \<le> n \<and> n \<le> 122) \<or> (65 \<le> n \<and> n \<le> 90) \<or> (48 \<le> n \<and> n \<le> 57))"

definition toLowerChar :: "char \<Rightarrow> char" where
  \<comment> \<open>\<open>A\<close>-\<open>Z\<close> and the Latin-1 capitals (0xC0-0xDE without the multiplication sign 0xD7)
      have their lower case 32 code units higher.\<close>
  "toLowerChar c =
     (let n = (of_char c :: nat)
      in if (65 \<le> n \<and> n \<le> 90) \<or> (192 \<le> n \<and> n \<le> 222 \<and> n \<noteq> 215) then char_of (n + 32) else c)"

definition toLowerCase :: "string \<Rightarrow> string" where
  "toLowerCase s = map toLowerChar s"

definition trim :: "string \<Rightarrow> string" where
  "trim s = rev (dropWhile isWhiteSpace (rev (dropWhile isWhiteSpace s)))"

definition startsWith :: "string \<Rightarrow> string \<Rightarrow> bool" where
  \<comment> \<open>\<open>s.startsWith(p)\<close>\<close>
  "startsWith s p \<longleftrightarrow> take (length p) s = p"

fun includes_str :: "string \<Rightarrow> string \<Rightarrow> bool" where
  \<comment> \<open>\<open>s.includes(p)\<close>\<close>
  "includes_str [] p = (p = [])"
| "includes_str (c # s) p = (startsWith (c # s) p \<or> includes_str s p)"

fun split :: "char \<Rightarrow> string \<Rightarrow> string list" where
  \<comment> \<open>\<open>s.split(c)\<close> for a separator of one character: never empty, \<open>''''.split(c) = ['''']\<close>.\<close>
  "split sep [] = [[]]"
| "split sep (c # s) =
     (if c = sep then [] # split sep s
      else (case split sep s of [] \<Rightarrow> [[c]] | p # ps \<Rightarrow> (c # p) # ps))"

fun showNat :: "nat \<Rightarrow> string" where
  \<comment> \<open>The decimal digits of a number, as a template literal prints an array length.\<close>
  "showNat n =
     (if n < 10 then [char_of (48 + n)] else showNat (n div 10) @ [char_of (48 + n mod 10)])"

declare showNat.simps [simp del]

definition digitValue :: "char \<Rightarrow> int" where
  "digitValue c = int (of_char c) - 48"

definition decimal :: "string \<Rightarrow> int" where
  \<comment> \<open>the number a run of digits writes\<close>
  "decimal ds = foldl (\<lambda>a d. 10 * a + digitValue d) 0 ds"

definition parseInt10 :: "string \<Rightarrow> int option" where
  \<comment> \<open>\<open>parseInt(s, 10)\<close>: leading white space is skipped, a sign is read, then the longest run
      of digits; no digit gives NaN (\<open>None\<close>). The value is the exact integer the digits
      write. JavaScript returns that integer when it is below \<open>2^53\<close> (\<open>safeInteger\<close>) and
      the nearest double otherwise, so what is stated about the numbers of longer digit runs
      carries the hypothesis \<open>safeInteger\<close>.\<close>
  "parseInt10 s =
     (let t = dropWhile isWhiteSpace s;
          (neg, u) = (case t of [] \<Rightarrow> (False, [])
                      | c # r \<Rightarrow> if c = CHR ''-'' then (True, r)
                                 else if c = CHR ''+'' then (False, r) else (False, t));
          ds = takeWhile isDigit u
      in if ds = [] then None
         else let v = decimal ds
              in Some (if neg then - v else v))"

section \<open>Regular expressions\<close>

text \<open>
  The regular expressions of the source are sequences of character classes under a
  quantifier, with one optional literal. An \<open>atom\<close> is one such item, and \<open>bt\<close> matches a
  sequence of atoms at the start of a string by backtracking, in the order of the
  JavaScript matcher: a greedy quantifier tries its longest run first, a lazy one its
  shortest. The result is the piece of the string each atom consumed; a capture group is
  read from the pieces of the atoms it encloses.
\<close>

datatype atom =
    One "char \<Rightarrow> bool"          \<comment> \<open>one character of the class\<close>
  | Greedy nat "char \<Rightarrow> bool"   \<comment> \<open>at least \<open>n\<close> characters of the class, greedy (\<open>*\<close> and \<open>+\<close>)\<close>
  | Lazy nat "char \<Rightarrow> bool"     \<comment> \<open>at least \<open>n\<close> characters of the class, lazy (\<open>*?\<close>)\<close>
  | OptLit string               \<comment> \<open>\<open>(?:literal)?\<close>\<close>

fun first_some :: "('a \<Rightarrow> 'b option) \<Rightarrow> 'a list \<Rightarrow> 'b option" where
  "first_some f [] = None"
| "first_some f (x # xs) = (case f x of Some y \<Rightarrow> Some y | None \<Rightarrow> first_some f xs)"

fun bt :: "atom list \<Rightarrow> string \<Rightarrow> string list option" where
  "bt [] s = Some []"
| "bt (One P # as) s =
     (case s of [] \<Rightarrow> None
      | c # s' \<Rightarrow> if P c then map_option ((#) [c]) (bt as s') else None)"
| "bt (Greedy n P # as) s =
     first_some (\<lambda>k. map_option ((#) (take k s)) (bt as (drop k s)))
       (rev [n ..< Suc (length (takeWhile P s))])"
| "bt (Lazy n P # as) s =
     first_some (\<lambda>k. map_option ((#) (take k s)) (bt as (drop k s)))
       [n ..< Suc (length (takeWhile P s))]"
| "bt (OptLit l # as) s =
     (case (if startsWith s l then map_option ((#) l) (bt as (drop (length l) s)) else None) of
        Some ps \<Rightarrow> Some ps
      | None \<Rightarrow> map_option ((#) []) (bt as s))"

definition lit :: "string \<Rightarrow> atom list" where
  \<comment> \<open>a literal: each character matches itself\<close>
  "lit l = map (\<lambda>x. One (\<lambda>c. c = x)) l"

definition litI :: "char \<Rightarrow> char \<Rightarrow> atom" where
  \<comment> \<open>a letter under the flag \<open>i\<close>: its upper and its lower case\<close>
  "litI u l = One (\<lambda>c. c = u \<or> c = l)"

definition matchAtStart :: "atom list \<Rightarrow> string \<Rightarrow> string list option" where
  \<comment> \<open>\<open>s.match(/^.../)\<close>: without the flag \<open>m\<close>, \<open>^\<close> is the start of the string\<close>
  "matchAtStart as s = bt as s"

definition matchAnywhere :: "atom list \<Rightarrow> string \<Rightarrow> string list option" where
  \<comment> \<open>\<open>s.match(/.../)\<close>: the first position, from the left, where the expression matches\<close>
  "matchAnywhere as s = first_some (\<lambda>i. bt as (drop i s)) [0 ..< Suc (length s)]"

section \<open>The playlist parser\<close>

record Channel =
  id_c :: string
  name :: string
  logo :: string
  group_c :: string
  url :: string
  seriesName :: "string option"
  season :: "int option"
  episode :: "int option"

definition imageRegex :: "atom list" where
  \<comment> \<open>\<open>/\/images\/([a-zA-Z0-9]+)(?:_small)?\.jpg/\<close>; group 1 is piece 8\<close>
  "imageRegex = lit ''/images/'' @ [Greedy 1 isAlnum, OptLit ''_small''] @ lit ''.jpg''"

definition fixImageUrl :: "string \<Rightarrow> string" where
  "fixImageUrl u =
     (if u = [] then []
      else if includes_str u ''assistirpainel.net''
      then (case matchAnywhere imageRegex u of
              Some m \<Rightarrow> ''https://image.tmdb.org/t/p/w500/'' @ m ! 8 @ ''.jpg''
            | None \<Rightarrow> u)
      else u)"

definition groupRegex :: "atom list" where
  \<comment> \<open>\<open>/group-title="([^"]*)"/\<close>; group 1 is piece 13\<close>
  "groupRegex = lit (''group-title='' @ [CHR 0x22]) @ [Greedy 0 (\<lambda>c. c \<noteq> CHR 0x22), One (\<lambda>c. c = CHR 0x22)]"

definition logoRegex :: "atom list" where
  \<comment> \<open>\<open>/tvg-logo="([^"]*)"/\<close>; group 1 is piece 10\<close>
  "logoRegex = lit (''tvg-logo='' @ [CHR 0x22]) @ [Greedy 0 (\<lambda>c. c \<noteq> CHR 0x22), One (\<lambda>c. c = CHR 0x22)]"

definition idRegex :: "atom list" where
  \<comment> \<open>\<open>/tvg-id="([^"]*)"/\<close>; group 1 is piece 8\<close>
  "idRegex = lit (''tvg-id='' @ [CHR 0x22]) @ [Greedy 0 (\<lambda>c. c \<noteq> CHR 0x22), One (\<lambda>c. c = CHR 0x22)]"

definition seriesRegex :: "atom list" where
  \<comment> \<open>\<open>/^(.*?)\s+S(\d+)\s*E(\d+)/i\<close>; groups 1, 2 and 3 are pieces 0, 3 and 6\<close>
  "seriesRegex =
     [Lazy 0 (\<lambda>c. \<not> isLineTerminator c), Greedy 1 isWhiteSpace, litI (CHR ''S'') (CHR ''s''),
      Greedy 1 isDigit, Greedy 0 isWhiteSpace, litI (CHR ''E'') (CHR ''e''), Greedy 1 isDigit]"

record ParseState =
  currentGroup :: string
  currentLogo :: string
  currentId :: string
  currentName :: string
  channels :: "Channel list"

definition resetPending :: "ParseState \<Rightarrow> ParseState" where
  "resetPending st =
     st\<lparr>currentGroup := ''Uncategorized'', currentLogo := [], currentId := [], currentName := []\<rparr>"

definition initialState :: ParseState where
  "initialState =
     \<lparr>currentGroup = ''Uncategorized'', currentLogo = [], currentId = [], currentName = [],
      channels = []\<rparr>"

definition orElse :: "string \<Rightarrow> string \<Rightarrow> string" where
  \<comment> \<open>\<open>a || b\<close> on strings: the empty string is falsy\<close>
  "orElse a b = (if a = [] then b else a)"

definition metadataLine :: "string \<Rightarrow> ParseState \<Rightarrow> ParseState" where
  \<comment> \<open>the branch of a line that starts with \<open>#EXTINF:\<close>\<close>
  "metadataLine line st =
     (let groupMatch = matchAnywhere groupRegex line;
          logoMatch = matchAnywhere logoRegex line;
          idMatch = matchAnywhere idRegex line;
          nameParts = split (CHR '','') line;
          name = trim (last nameParts)
      in st\<lparr>currentGroup := (case groupMatch of Some m \<Rightarrow> m ! 13 | None \<Rightarrow> ''Uncategorized''),
             currentLogo := fixImageUrl (case logoMatch of Some m \<Rightarrow> m ! 10 | None \<Rightarrow> []),
             currentId := (case idMatch of Some m \<Rightarrow> m ! 8 | None \<Rightarrow> []),
             currentName := name\<rparr>)"

definition seriesCheck :: "string \<Rightarrow> string option \<times> int option \<times> int option" where
  \<comment> \<open>the object \<open>seriesCheck\<close>: empty without a match, else \<open>seriesName\<close>, \<open>season\<close> and
      \<open>episode\<close> from the groups; \<open>parseInt\<close> of a run of digits is never NaN\<close>
  "seriesCheck nm =
     (case matchAtStart seriesRegex nm of
        None \<Rightarrow> (None, None, None)
      | Some m \<Rightarrow> (Some (trim (m ! 0)), parseInt10 (m ! 3), parseInt10 (m ! 6)))"

definition makeChannel :: "ParseState \<Rightarrow> string \<Rightarrow> Channel" where
  \<comment> \<open>the object pushed for a playback line\<close>
  "makeChannel st line =
     (let (sn, se, ep) = seriesCheck (currentName st)
      in \<lparr>id_c = orElse (currentId st) (''ch-'' @ showNat (length (channels st))),
          name = orElse (currentName st) ''Unknown Channel'',
          logo = currentLogo st,
          group_c = currentGroup st,
          url = line,
          seriesName = sn, season = se, episode = ep\<rparr>)"

definition playbackLine :: "string \<Rightarrow> ParseState \<Rightarrow> ParseState" where
  \<comment> \<open>the branch of a line that does not start with \<open>#\<close>: push the channel, reset\<close>
  "playbackLine line st = resetPending (st\<lparr>channels := channels st @ [makeChannel st line]\<rparr>)"

definition parseLine :: "ParseState \<Rightarrow> string \<Rightarrow> ParseState" where
  \<comment> \<open>the body of the loop over the lines\<close>
  "parseLine st raw =
     (let line = trim raw
      in if line = [] then st
         else if startsWith line ''#EXTINF:'' then metadataLine line st
         else if \<not> startsWith line ''#'' then playbackLine line st
         else st)"

definition parseLines :: "ParseState \<Rightarrow> string list \<Rightarrow> ParseState" where
  "parseLines st ls = foldl parseLine st ls"

definition parseM3U :: "string \<Rightarrow> Channel list" where
  "parseM3U content = channels (parseLines initialState (split (CHR 0x0A) content))"

section \<open>The catalog: filtering, grouping mode and series\<close>

record Series =
  name_s :: string
  logo_s :: string
  seasonCount :: nat
  episodeCount :: nat
  episodes :: "Channel list"

definition truthy :: "string option \<Rightarrow> bool" where
  \<comment> \<open>an optional string as a condition: \<open>undefined\<close> and the empty string are falsy\<close>
  "truthy x = (case x of None \<Rightarrow> False | Some s \<Rightarrow> s \<noteq> [])"

definition orZero :: "int option \<Rightarrow> int" where
  \<comment> \<open>\<open>x || 0\<close>\<close>
  "orZero x = (case x of None \<Rightarrow> 0 | Some n \<Rightarrow> n)"

definition orOne :: "int option \<Rightarrow> int" where
  \<comment> \<open>\<open>x || 1\<close>\<close>
  "orOne x = (case x of None \<Rightarrow> 1 | Some n \<Rightarrow> if n = 0 then 1 else n)"

definition filterChannels :: "Channel list \<Rightarrow> string \<Rightarrow> string \<Rightarrow> Channel list" where
  \<comment> \<open>\<open>filteredChannels\<close>, from \<open>channels\<close>, \<open>selectedCategory\<close> and \<open>searchQuery\<close>\<close>
  "filterChannels chans selectedCategory searchQuery =
     (if selectedCategory = [] \<and> searchQuery = [] then []
      else let result1 = (if selectedCategory \<noteq> []
                          then filter (\<lambda>c. group_c c = selectedCategory) chans else chans)
           in if searchQuery \<noteq> []
              then let q = toLowerCase searchQuery
                   in filter (\<lambda>c. includes_str (toLowerCase (name c)) q) result1
              else result1)"

definition compareEpisodes :: "Channel \<Rightarrow> Channel \<Rightarrow> int" where
  \<comment> \<open>the comparator given to \<open>sort\<close>\<close>
  "compareEpisodes a b =
     (let sA = orZero (season a); sB = orZero (season b)
      in if sA \<noteq> sB then sA - sB else orZero (episode a) - orZero (episode b))"

fun insertBy :: "('a \<Rightarrow> 'a \<Rightarrow> int) \<Rightarrow> 'a \<Rightarrow> 'a list \<Rightarrow> 'a list" where
  "insertBy cmp x [] = [x]"
| "insertBy cmp x (y # ys) = (if cmp x y \<le> 0 then x # y # ys else y # insertBy cmp x ys)"

fun sortBy :: "('a \<Rightarrow> 'a \<Rightarrow> int) \<Rightarrow> 'a list \<Rightarrow> 'a list" where
  \<comment> \<open>\<open>Array.prototype.sort\<close> with a comparator: a stable sort, so elements that compare
      equal keep their order; written as the insertion sort that keeps them so\<close>
  "sortBy cmp [] = []"
| "sortBy cmp (x # xs) = insertBy cmp x (sortBy cmp xs)"

definition newSeries :: "string \<Rightarrow> Channel \<Rightarrow> Series" where
  "newSeries n c = \<lparr>name_s = n, logo_s = logo c, seasonCount = 0, episodeCount = 0, episodes = []\<rparr>"

definition pushEpisode :: "Channel \<Rightarrow> Series \<Rightarrow> Series" where
  "pushEpisode c s = s\<lparr>episodes := episodes s @ [c], episodeCount := episodeCount s + 1\<rparr>"

definition groupStep ::
  "(string \<times> Series) list \<times> Channel list \<Rightarrow> Channel \<Rightarrow> (string \<times> Series) list \<times> Channel list" where
  \<comment> \<open>the body of \<open>filteredChannels.forEach\<close>; the \<open>Map\<close> keeps its keys in insertion order\<close>
  "groupStep acc c =
     (case acc of (seriesMap, standalones) \<Rightarrow>
        if truthy (seriesName c)
        then (case seriesName c of
                None \<Rightarrow> acc
              | Some n \<Rightarrow>
                  (case map_of seriesMap n of
                     None \<Rightarrow> (AList.update n (pushEpisode c (newSeries n c)) seriesMap, standalones)
                   | Some s \<Rightarrow> (AList.update n (pushEpisode c s) seriesMap, standalones)))
        else (seriesMap, standalones @ [c]))"

definition finishSeries :: "Series \<Rightarrow> Series" where
  \<comment> \<open>the body of \<open>seriesMap.forEach\<close>: sort the episodes, count the seasons\<close>
  "finishSeries s =
     (let eps = sortBy compareEpisodes (episodes s)
      in s\<lparr>episodes := eps, seasonCount := length (remdups (map (\<lambda>e. orOne (season e)) eps))\<rparr>)"

definition seriesView :: "Channel list \<Rightarrow> bool \<times> Series list \<times> Channel list" where
  \<comment> \<open>the memo \<open>{isSeriesView, groupedSeries, standaloneChannels}\<close>. The quotient of two array
      lengths is above 0.5 as a double exactly when it is so as a fraction; \<open>0 / 0\<close> is NaN,
      which is not above 0.5, as \<open>0 / 0 = 0\<close> here is not.\<close>
  "seriesView filteredChannels =
     (let seriesItems = filter (\<lambda>c. truthy (seriesName c)) filteredChannels;
          isSeries = (length seriesItems > 0
                      \<and> real (length seriesItems) / real (length filteredChannels) > 0.5)
      in if \<not> isSeries then (False, [], filteredChannels)
         else (case foldl groupStep ([], []) filteredChannels of
                 (seriesMap, standalones) \<Rightarrow> (True, map (finishSeries \<circ> snd) seriesMap, standalones)))"

definition isSeriesView :: "Channel list \<Rightarrow> bool" where
  "isSeriesView filteredChannels = fst (seriesView filteredChannels)"

definition groupedSeries :: "Channel list \<Rightarrow> Series list" where
  "groupedSeries filteredChannels = fst (snd (seriesView filteredChannels))"

section \<open>The browsing view\<close>

record AppState =
  app_channels :: "Channel list"
  selectedCategory :: string
  searchQuery :: string
  selectedChannel :: "Channel option"
  selectedSeries :: "Series option"
  selectedSeason :: "int option"
  sidebarOpen :: bool

datatype View =
    EpisodesView Series int          \<comment> \<open>the episodes of a season of the selected series\<close>
  | SeasonsView Series               \<comment> \<open>the seasons of the selected series\<close>
  | SeriesListView "Series list"     \<comment> \<open>the grid of series\<close>
  | NoContentView                    \<comment> \<open>the standard view with nothing to show\<close>
  | ChannelGridView "Channel list"   \<comment> \<open>the standard view: the flat grid of channels\<close>

definition filteredChannels :: "AppState \<Rightarrow> Channel list" where
  "filteredChannels st = filterChannels (app_channels st) (selectedCategory st) (searchQuery st)"

definition contentView :: "AppState \<Rightarrow> View" where
  \<comment> \<open>the conditional of the content area, in the order of the source\<close>
  "contentView st =
     (case selectedSeries st of
        Some s \<Rightarrow> (case selectedSeason st of Some n \<Rightarrow> EpisodesView s n | None \<Rightarrow> SeasonsView s)
      | None \<Rightarrow>
          if isSeriesView (filteredChannels st) \<and> \<not> includes_str (searchQuery st) ''S''
          then SeriesListView (groupedSeries (filteredChannels st))
          else if filteredChannels st = [] then NoContentView
          else ChannelGridView (filteredChannels st))"

datatype Event =
    CategoryClick string     \<comment> \<open>a category button of the sidebar\<close>
  | BackClick                \<comment> \<open>the back button, shown while a series is selected\<close>
  | SearchChange string      \<comment> \<open>typing in the search box, shown while no series is selected\<close>
  | SeriesClick Series       \<comment> \<open>a card of the grid of series\<close>
  | SeasonClick int          \<comment> \<open>a card of the seasons view\<close>
  | ChannelClick Channel     \<comment> \<open>a card of the episodes view or of the grid of channels\<close>
  | ClosePlayer
  | ToggleSidebar

definition handle :: "AppState \<Rightarrow> Event \<Rightarrow> AppState option" where
  \<comment> \<open>the event handlers; \<open>None\<close> where the control is not rendered in the state\<close>
  "handle st ev =
     (case ev of
        CategoryClick c \<Rightarrow>
          if c \<in> set (map group_c (app_channels st))
          then Some (st\<lparr>selectedCategory := c, searchQuery := [], selectedSeries := None,
                        selectedSeason := None\<rparr>)
          else None
      | BackClick \<Rightarrow>
          (case selectedSeries st of
             None \<Rightarrow> None
           | Some s \<Rightarrow> if selectedSeason st \<noteq> None then Some (st\<lparr>selectedSeason := None\<rparr>)
                       else Some (st\<lparr>selectedSeries := None\<rparr>))
      | SearchChange q \<Rightarrow>
          (case selectedSeries st of None \<Rightarrow> Some (st\<lparr>searchQuery := q\<rparr>) | Some s \<Rightarrow> None)
      | SeriesClick s \<Rightarrow>
          (case contentView st of
             SeriesListView ss \<Rightarrow> if s \<in> set ss then Some (st\<lparr>selectedSeries := Some s\<rparr>) else None
           | _ \<Rightarrow> None)
      | SeasonClick n \<Rightarrow>
          (case contentView st of
             SeasonsView s \<Rightarrow>
               if n \<in> set (map (\<lambda>e. orOne (season e)) (episodes s))
               then Some (st\<lparr>selectedSeason := Some n\<rparr>) else None
           | _ \<Rightarrow> None)
      | ChannelClick c \<Rightarrow>
          (case contentView st of
             EpisodesView s n \<Rightarrow>
               if c \<in> set (filter (\<lambda>e. orOne (season e) = n) (episodes s))
               then Some (st\<lparr>selectedChannel := Some c\<rparr>) else None
           | ChannelGridView cs \<Rightarrow> if c \<in> set cs then Some (st\<lparr>selectedChannel := Some c\<rparr>) else None
           | _ \<Rightarrow> None)
      | ClosePlayer \<Rightarrow>
          (case selectedChannel st of None \<Rightarrow> None | Some c \<Rightarrow> Some (st\<lparr>selectedChannel := None\<rparr>))
      | ToggleSidebar \<Rightarrow> Some (st\<lparr>sidebarOpen := \<not> sidebarOpen st\<rparr>))"

definition loadedState :: "Channel list \<Rightarrow> string \<Rightarrow> AppState" where
  \<comment> \<open>the state once the playlist is loaded: the parsed channels and the first category\<close>
  "loadedState chans cat =
     \<lparr>app_channels = chans, selectedCategory = cat, searchQuery = [], selectedChannel = None,
      selectedSeries = None, selectedSeason = None, sidebarOpen = True\<rparr>"

inductive reachable :: "AppState \<Rightarrow> bool" where
  loaded: "reachable (loadedState chans cat)"
| step: "reachable st \<Longrightarrow> handle st ev = Some st' \<Longrightarrow> reachable st'"

section \<open>The stream proxy\<close>

record Config =
  IPTV_HOST :: string
  IPTV_PORT :: nat

record Request =
  req_method :: string
  req_url :: string
  req_headers :: "string \<rightharpoonup> string"   \<comment> \<open>\<open>req.headers\<close>, keyed by lower-case name\<close>

record ProxyOptions =
  hostname :: string
  port :: nat
  path :: string
  http_method :: string
  headers :: "(string \<times> string) list"

definition impersonation :: "Config \<Rightarrow> (string \<times> string) list" where
  \<comment> \<open>the headers of the literal \<open>proxyOptions.headers\<close>\<close>
  "impersonation cfg =
     [(''User-Agent'', ''Lavf/60.3.100''),
      (''Accept'', ''*/*''),
      (''Accept-Language'', ''en-US,en;q=0.9''),
      (''Accept-Encoding'', ''identity''),
      (''Connection'', ''keep-alive''),
      (''Host'', IPTV_HOST cfg @ '':'' @ showNat (IPTV_PORT cfg)),
      (''Icy-MetaData'', ''1'')]"

definition proxyOptions :: "Config \<Rightarrow> Request \<Rightarrow> ProxyOptions" where
  \<comment> \<open>the options of the upstream request, after the conditional on \<open>req.headers.range\<close>\<close>
  "proxyOptions cfg req =
     (let opts = \<lparr>hostname = IPTV_HOST cfg, port = IPTV_PORT cfg, path = req_url req,
                  http_method = req_method req, headers = impersonation cfg\<rparr>
      in if truthy (req_headers req ''range'')
         then (case req_headers req ''range'' of
                 None \<Rightarrow> opts
               | Some r \<Rightarrow> opts\<lparr>headers := AList.update ''Range'' r (headers opts)\<rparr>)
         else opts)"

datatype HeaderValue = Single string | Multi "string list"

datatype Payload = JsonObject "(string \<times> string) list"

record Response =
  statusCode :: nat
  res_headers :: "string \<rightharpoonup> HeaderValue"   \<comment> \<open>the headers set so far, by lower-case name\<close>
  headersSent :: bool
  chunks :: "string list"   \<comment> \<open>the chunks of the upstream body written so far\<close>
  body :: "Payload option"  \<comment> \<open>the payload of \<open>res.json\<close>\<close>
  finished :: bool          \<comment> \<open>the response is ended\<close>

record IncomingMessage =
  up_statusCode :: nat
  up_headers :: "(string \<times> HeaderValue) list"   \<comment> \<open>\<open>proxyRes.headers\<close>, in key order\<close>

definition setHeader :: "string \<Rightarrow> HeaderValue \<Rightarrow> Response \<Rightarrow> Response" where
  \<comment> \<open>\<open>res.setHeader\<close>: header names are case-insensitive\<close>
  "setHeader k v res = res\<lparr>res_headers := (res_headers res)(toLowerCase k \<mapsto> v)\<rparr>"

definition forwardHeader :: "Response \<Rightarrow> string \<times> HeaderValue \<Rightarrow> Response" where
  \<comment> \<open>the body of \<open>Object.keys(proxyRes.headers).forEach\<close>\<close>
  "forwardHeader res kv =
     (case kv of (key, v) \<Rightarrow>
        if \<not> (toLowerCase key \<in> set [''transfer-encoding'']) then setHeader key v res else res)"

definition onProxyRes :: "Response \<Rightarrow> IncomingMessage \<Rightarrow> Response" where
  \<comment> \<open>the callback of \<open>http.request\<close>, up to \<open>res.status\<close>; the body is piped after it\<close>
  "onProxyRes res proxyRes =
     (let res1 = setHeader ''Access-Control-Allow-Origin'' (Single ''*'') res;
          res2 = setHeader ''Access-Control-Allow-Methods'' (Single ''GET, OPTIONS'') res1;
          res3 = setHeader ''Access-Control-Expose-Headers''
                   (Single ''Content-Length, Content-Range, Content-Type'') res2;
          res4 = foldl forwardHeader res3 (up_headers proxyRes)
      in res4\<lparr>statusCode := up_statusCode proxyRes\<rparr>)"

definition sendJson :: "(string \<times> string) list \<Rightarrow> Response \<Rightarrow> Response" where
  \<comment> \<open>\<open>res.json\<close>: the content type, unless one is set, then the body, and the response ends\<close>
  "sendJson obj res =
     (let res1 = (if res_headers res ''content-type'' = None
                  then setHeader ''Content-Type'' (Single ''application/json; charset=utf-8'') res
                  else res)
      in res1\<lparr>headersSent := True, body := Some (JsonObject obj), finished := True\<rparr>)"

definition onProxyError :: "Response \<Rightarrow> string \<Rightarrow> Response" where
  \<comment> \<open>the handler of \<open>proxyReq.on('error')\<close>, with \<open>err.message\<close>\<close>
  "onProxyError res message =
     (if \<not> headersSent res
      then sendJson [(''error'', ''Stream unavailable''), (''details'', message)]
             (res\<lparr>statusCode := 502\<rparr>)
      else res)"

datatype ProxyEvent =
    UpstreamResponse IncomingMessage   \<comment> \<open>the callback of \<open>http.request\<close> is called\<close>
  | UpstreamData string                \<comment> \<open>a chunk of the upstream body arrives\<close>
  | UpstreamEnd                        \<comment> \<open>the upstream body ends\<close>
  | UpstreamError string               \<comment> \<open>\<open>proxyReq\<close> emits \<open>error\<close>\<close>

definition proxyEvent :: "Response \<Rightarrow> ProxyEvent \<Rightarrow> Response" where
  \<comment> \<open>what the handler of \<open>/stream-proxy\<close> does on an event of the upstream request.
      \<open>proxyRes.pipe(res)\<close> writes each chunk to the response, the first write sending the
      headers, and ends the response at the end of the upstream body; a pipe does not end
      its destination when the source fails.\<close>
  "proxyEvent res ev =
     (case ev of
        UpstreamResponse proxyRes \<Rightarrow> onProxyRes res proxyRes
      | UpstreamData c \<Rightarrow> res\<lparr>headersSent := True, chunks := chunks res @ [c]\<rparr>
      | UpstreamEnd \<Rightarrow> res\<lparr>headersSent := True, finished := True\<rparr>
      | UpstreamError message \<Rightarrow> onProxyError res message)"

definition runProxy :: "Response \<Rightarrow> ProxyEvent list \<Rightarrow> Response" where
  "runProxy res evs = foldl proxyEvent res evs"

section \<open>Notions of the properties\<close>

subsection \<open>Lines and pending fields of the parser\<close>

definition isPlaybackLine :: "string \<Rightarrow> bool" where
  \<comment> \<open>a line that is neither blank nor a comment, once trimmed\<close>
  "isPlaybackLine raw \<longleftrightarrow> trim raw \<noteq> [] \<and> \<not> startsWith (trim raw) ''#''"

definition isMetadataLine :: "string \<Rightarrow> bool" where
  "isMetadataLine raw \<longleftrightarrow> startsWith (trim raw) ''#EXTINF:''"

definition pendingDefault :: "ParseState \<Rightarrow> bool" where
  \<comment> \<open>the pending fields hold the values they are declared with\<close>
  "pendingDefault st \<longleftrightarrow>
     currentGroup st = ''Uncategorized'' \<and> currentLogo st = [] \<and> currentId st = []
     \<and> currentName st = []"

definition nameTrimmed :: "ParseState \<Rightarrow> bool" where
  \<comment> \<open>the pending name is empty or starts with a character that is not white space\<close>
  "nameTrimmed st \<longleftrightarrow> currentName st = [] \<or> \<not> isWhiteSpace (hd (currentName st))"

subsection \<open>What a regular expression matches\<close>

fun conforms :: "atom \<Rightarrow> string \<Rightarrow> bool" where
  \<comment> \<open>a piece of text that an atom can consume\<close>
  "conforms (One P) p = (case p of [c] \<Rightarrow> P c | _ \<Rightarrow> False)"
| "conforms (Greedy n P) p = (n \<le> length p \<and> list_all P p)"
| "conforms (Lazy n P) p = (n \<le> length p \<and> list_all P p)"
| "conforms (OptLit l) p = (p = l \<or> p = [])"


definition seriesPattern :: "string \<Rightarrow> string \<Rightarrow> string \<Rightarrow> string \<Rightarrow> string \<Rightarrow> bool" where
  \<comment> \<open>the name reads: the title \<open>t\<close>, white space, \<open>S\<close>, the digits \<open>sd\<close>, any white space,
      \<open>E\<close>, the digits \<open>ed\<close>, and then \<open>rest\<close>\<close>
  "seriesPattern nm t sd ed rest \<longleftrightarrow>
     (\<exists>w sC w' eC.
        nm = t @ w @ [sC] @ sd @ w' @ [eC] @ ed @ rest
        \<and> list_all (\<lambda>c. \<not> isLineTerminator c) t
        \<and> w \<noteq> [] \<and> list_all isWhiteSpace w
        \<and> (sC = CHR ''S'' \<or> sC = CHR ''s'')
        \<and> sd \<noteq> [] \<and> list_all isDigit sd
        \<and> list_all isWhiteSpace w'
        \<and> (eC = CHR ''E'' \<or> eC = CHR ''e'')
        \<and> ed \<noteq> [] \<and> list_all isDigit ed)"

definition firstSeriesPattern :: "string \<Rightarrow> string \<Rightarrow> string \<Rightarrow> string \<Rightarrow> string \<Rightarrow> bool" where
  \<comment> \<open>the reading of the name with the shortest title and the longest run of episode digits
      (the runs of white space and of season digits end at a letter, so they are the longest
      as well)\<close>
  "firstSeriesPattern nm t sd ed rest \<longleftrightarrow>
     seriesPattern nm t sd ed rest
     \<and> takeWhile isDigit rest = []
     \<and> (\<forall>t' sd' ed' rest'. seriesPattern nm t' sd' ed' rest' \<longrightarrow> length t \<le> length t')"

definition safeInteger :: "int \<Rightarrow> bool" where
  \<comment> \<open>an integer that a JavaScript number holds exactly: \<open>Number.isSafeInteger\<close>\<close>
  "safeInteger v \<longleftrightarrow> - (2 ^ 53) < v \<and> v < 2 ^ 53"

definition trailingSeriesPattern :: "string \<Rightarrow> bool" where
  \<comment> \<open>the specification's wording, a trailing pattern \<open><title> S<digits> E<digits>\<close>: the name
      ends with the digits of the episode\<close>
  "trailingSeriesPattern nm \<longleftrightarrow> (\<exists>t sd ed. seriesPattern nm t sd ed [])"

subsection \<open>Series and their episodes\<close>

definition seriesFraction :: "Channel list \<Rightarrow> real" where
  \<comment> \<open>the fraction of the entries that carry a series name\<close>
  "seriesFraction fc = real (length (filter (\<lambda>c. truthy (seriesName c)) fc)) / real (length fc)"

definition episodeKey :: "Channel \<Rightarrow> int \<times> int" where
  \<comment> \<open>season and episode, unset counting as 0\<close>
  "episodeKey c = (orZero (season c), orZero (episode c))"

definition episodeLe :: "Channel \<Rightarrow> Channel \<Rightarrow> bool" where
  \<comment> \<open>the order by season, then episode\<close>
  "episodeLe a b \<longleftrightarrow>
     orZero (season a) < orZero (season b)
     \<or> (orZero (season a) = orZero (season b) \<and> orZero (episode a) \<le> orZero (episode b))"

definition episodesOf :: "string \<Rightarrow> Channel list \<Rightarrow> Channel list" where
  \<comment> \<open>the entries of a series, in the order of the input\<close>
  "episodesOf n cs = filter (\<lambda>c. seriesName c = Some n) cs"

definition sameKeyOnlyIfEqual :: "Channel list \<Rightarrow> bool" where
  \<comment> \<open>two entries of one series with the same season and episode are the same entry;
      entries without a series name are not concerned\<close>
  "sameKeyOnlyIfEqual fc \<longleftrightarrow>
     (\<forall>a\<in>set fc. \<forall>b\<in>set fc.
        truthy (seriesName a) \<and> seriesName a = seriesName b
        \<and> orZero (season a) = orZero (season b)
        \<and> orZero (episode a) = orZero (episode b) \<longrightarrow> a = b)"

definition groupInv :: "(string \<times> Series) list \<Rightarrow> Channel list \<Rightarrow> bool" where
  \<comment> \<open>the invariant of the grouping loop, once it has read the entries \<open>xs\<close>\<close>
  "groupInv m xs \<longleftrightarrow>
     distinct (map fst m)
     \<and> (\<forall>n s. map_of m n = Some s \<longrightarrow> name_s s = n \<and> episodes s = episodesOf n xs)
     \<and> (\<forall>n. map_of m n \<noteq> None \<longleftrightarrow> n \<noteq> [] \<and> (\<exists>c\<in>set xs. seriesName c = Some n))"

subsection \<open>Headers as Node delivers them\<close>

definition nodeHeaders :: "(string \<times> HeaderValue) list \<Rightarrow> bool" where
  \<comment> \<open>the names of \<open>IncomingMessage.headers\<close> are in lower case, each once\<close>
  "nodeHeaders hs \<longleftrightarrow> distinct (map fst hs) \<and> (\<forall>k \<in> fst ` set hs. toLowerCase k = k)"

section \<open>Example inputs\<close>

definition playlist1 :: string where
  "playlist1 = ''#EXTM3U'' @ [CHR 0x0A] @ ''#EXTINF:-1,News'' @ [CHR 0x0D, CHR 0x0A]
     @ ''http://h/1.ts'' @ [CHR 0x0D, CHR 0x0A] @ [CHR 0x0A] @ ''   '' @ [CHR 0x0A]
     @ ''  http://h/2.ts ''"

definition playlist2 :: string where
  "playlist2 = ''#EXTINF:-1 tvg-id='' @ [CHR 0x22] @ ''n1'' @ [CHR 0x22] @ '' group-title=''
     @ [CHR 0x22] @ ''News'' @ [CHR 0x22] @ '',News One'' @ [CHR 0x0A]
     @ ''http://h/1.ts'' @ [CHR 0x0A] @ [CHR 0x0A] @ ''#comment'' @ [CHR 0x0A]
     @ ''http://h/2.ts''"

definition playlist3 :: string where
  "playlist3 = ''#EXTINF:-1 group-title='' @ [CHR 0x22] @ ''Series'' @ [CHR 0x22]
     @ '',Breaking Bad S02 E05'' @ [CHR 0x0A] @ ''http://h/bb.ts'' @ [CHR 0x0A]
     @ ''#EXTINF:-1,Inception (2010)'' @ [CHR 0x0A] @ ''http://h/i.ts''"

definition playlist4 :: string where
  "playlist4 = ''#EXTINF:-1,Breaking Bad S02 E05 HD'' @ [CHR 0x0A] @ ''http://h/bb.ts''"

definition playlist5 :: string where
  "playlist5 = ''#EXTINF:-1 group-title='' @ [CHR 0x22] @ ''Series'' @ [CHR 0x22]
     @ '',Show S01 E01'' @ [CHR 0x0A] @ ''http://h/1.ts'' @ [CHR 0x0A]
     @ ''#EXTINF:-1 group-title='' @ [CHR 0x22] @ ''Series'' @ [CHR 0x22]
     @ '',Show S01 E02'' @ [CHR 0x0A] @ ''http://h/2.ts''"

definition playlist6 :: string where
  \<comment> \<open>one episode offered twice, from two sources\<close>
  "playlist6 = ''#EXTINF:-1 group-title='' @ [CHR 0x22] @ ''Series'' @ [CHR 0x22]
     @ '',Show S01 E01'' @ [CHR 0x0A] @ ''http://h/a.ts'' @ [CHR 0x0A]
     @ ''#EXTINF:-1 group-title='' @ [CHR 0x22] @ ''Series'' @ [CHR 0x22]
     @ '',Show S01 E01'' @ [CHR 0x0A] @ ''http://h/b.ts''"

definition dupA :: Channel where
  "dupA = \<lparr>id_c = ''ch-0'', name = ''Show S01 E01'', logo = [], group_c = ''Series'',
           url = ''http://h/a.ts'', seriesName = Some ''Show'', season = Some 1, episode = Some 1\<rparr>"

definition dupB :: Channel where
  "dupB = \<lparr>id_c = ''ch-1'', name = ''Show S01 E01'', logo = [], group_c = ''Series'',
           url = ''http://h/b.ts'', seriesName = Some ''Show'', season = Some 1, episode = Some 1\<rparr>"

definition episodeOf :: "string \<Rightarrow> string \<Rightarrow> int \<Rightarrow> int \<Rightarrow> Channel" where
  "episodeOf u sn se ep =
     \<lparr>id_c = u, name = sn, logo = [], group_c = ''Series'', url = u,
      seriesName = Some sn, season = Some se, episode = Some ep\<rparr>"

definition movieOf :: "string \<Rightarrow> Channel" where
  "movieOf u =
     \<lparr>id_c = u, name = u, logo = [], group_c = ''Movies'', url = u,
      seriesName = None, season = None, episode = None\<rparr>"

definition shuffleA :: "Channel list" where
  "shuffleA = [episodeOf ''u3'' ''Show'' 2 1, movieOf ''m1'', episodeOf ''u2'' ''Show'' 1 2,
               movieOf ''m2'', episodeOf ''u1'' ''Show'' 1 1]"

definition shuffleB :: "Channel list" where
  "shuffleB = [movieOf ''m2'', episodeOf ''u2'' ''Show'' 1 2, episodeOf ''u3'' ''Show'' 2 1,
               episodeOf ''u1'' ''Show'' 1 1, movieOf ''m1'']"

definition tiedEpisodes :: "Channel list" where
  "tiedEpisodes = [episodeOf ''u3'' ''Show'' 2 1, episodeOf ''b'' ''Show'' 1 1,
                   episodeOf ''a'' ''Show'' 1 1]"

definition sixtyPercent :: "Channel list" where
  "sixtyPercent = [episodeOf ''u1'' ''Show'' 1 1, movieOf ''m1'', episodeOf ''u2'' ''Show'' 1 2,
                   movieOf ''m2'', episodeOf ''u3'' ''Other'' 1 1]"

definition fiftyPercent :: "Channel list" where
  "fiftyPercent = [episodeOf ''u1'' ''Show'' 1 1, movieOf ''m1'']"

definition searchingUpper :: AppState where
  "searchingUpper = (loadedState (parseM3U playlist5) ''Series'')\<lparr>searchQuery := ''S01''\<rparr>"

definition searchingLower :: AppState where
  "searchingLower = (loadedState (parseM3U playlist5) ''Series'')\<lparr>searchQuery := ''s01''\<rparr>"

definition defaultConfig :: Config where
  "defaultConfig = \<lparr>IPTV_HOST = ''tiralit.shop'', IPTV_PORT = 8880\<rparr>"

definition emptyRangeRequest :: Request where
  "emptyRangeRequest =
     \<lparr>req_method = ''GET'', req_url = ''/live/user/pass/1.ts'',
      req_headers = [''host'' \<mapsto> ''localhost:3000'', ''range'' \<mapsto> []]\<rparr>"

definition rangeRequest :: Request where
  "rangeRequest =
     \<lparr>req_method = ''GET'', req_url = ''/movie/user/pass/7.mp4'',
      req_headers = [''host'' \<mapsto> ''localhost:3000'', ''user-agent'' \<mapsto> ''Mozilla/5.0'',
                     ''range'' \<mapsto> ''bytes=1000-'']\<rparr>"

definition plainRequest :: Request where
  "plainRequest =
     \<lparr>req_method = ''GET'', req_url = ''/live/user/pass/1.ts'',
      req_headers = [''host'' \<mapsto> ''localhost:3000'', ''user-agent'' \<mapsto> ''Mozilla/5.0'']\<rparr>"

definition freshResponse :: Response where
  "freshResponse =
     \<lparr>statusCode = 200,
      res_headers = [''x-powered-by'' \<mapsto> Single ''Express'',
                     ''access-control-allow-origin'' \<mapsto> Single ''*''],
      headersSent = False, chunks = [], body = None, finished = False\<rparr>"

definition streamingResponse :: Response where
  "streamingResponse =
     \<lparr>statusCode = 206,
      res_headers = [''content-type'' \<mapsto> Single ''video/mp4'',
                     ''content-range'' \<mapsto> Single ''bytes 1000-1999/2000''],
      headersSent = True, chunks = [''chunk 1''], body = None, finished = False\<rparr>"

definition partialContent :: IncomingMessage where
  "partialContent =
     \<lparr>up_statusCode = 206,
      up_headers = [(''content-type'', Single ''video/mp4''),
                    (''transfer-encoding'', Single ''chunked''),
                    (''content-range'', Single ''bytes 1000-1999/2000''),
                    (''set-cookie'', Multi [''a=1'', ''b=2''])]\<rparr>"

section \<open>The loop of the parser\<close>

lemma startsWith_iff: "startsWith s p \<longleftrightarrow> (\<exists>r. s = p @ r)"
proof
  assume "startsWith s p"
  then have "s = p @ drop (length p) s"
    unfolding startsWith_def by (metis append_take_drop_id)
  then show "\<exists>r. s = p @ r" ..
next
  assume "\<exists>r. s = p @ r"
  then show "startsWith s p" by (auto simp: startsWith_def)
qed

lemma startsWith_EXTINF_hash: "startsWith l ''#EXTINF:'' \<Longrightarrow> startsWith l ''#''"
  unfolding startsWith_iff by auto

lemma startsWith_Nil: "\<not> startsWith [] ''#EXTINF:''"
  by (simp add: startsWith_def)

lemma parseLine_playback: "isPlaybackLine raw \<Longrightarrow> parseLine st raw = playbackLine (trim raw) st"
  using startsWith_EXTINF_hash[of "trim raw"]
  by (auto simp: parseLine_def isPlaybackLine_def Let_def)

lemma parseLine_metadata: "isMetadataLine raw \<Longrightarrow> parseLine st raw = metadataLine (trim raw) st"
  using startsWith_Nil
  by (auto simp: parseLine_def isMetadataLine_def Let_def)

lemma parseLine_ignored:
  "\<not> isPlaybackLine raw \<Longrightarrow> \<not> isMetadataLine raw \<Longrightarrow> parseLine st raw = st"
  by (auto simp: parseLine_def isMetadataLine_def isPlaybackLine_def Let_def)

lemma metadata_not_playback: "isMetadataLine raw \<Longrightarrow> \<not> isPlaybackLine raw"
  using startsWith_EXTINF_hash[of "trim raw"] by (auto simp: isMetadataLine_def isPlaybackLine_def)

lemma channels_metadataLine [simp]: "channels (metadataLine l st) = channels st"
  by (simp add: metadataLine_def Let_def)

lemma channels_playbackLine [simp]:
  "channels (playbackLine l st) = channels st @ [makeChannel st l]"
  by (simp add: playbackLine_def resetPending_def)

lemma pending_playbackLine [simp]: "pendingDefault (playbackLine l st)"
  by (simp add: playbackLine_def resetPending_def pendingDefault_def)

lemma url_makeChannel [simp]: "url (makeChannel st l) = l"
  by (simp add: makeChannel_def split: prod.splits)

lemma channels_parseLine:
  "channels (parseLine st raw) =
     (if isPlaybackLine raw then channels st @ [makeChannel st (trim raw)] else channels st)"
  by (cases "isMetadataLine raw")
     (auto simp: parseLine_playback parseLine_metadata parseLine_ignored metadata_not_playback)

lemma parseLines_Nil [simp]: "parseLines st [] = st"
  by (simp add: parseLines_def)

lemma parseLines_Cons [simp]: "parseLines st (l # ls) = parseLines (parseLine st l) ls"
  by (simp add: parseLines_def)

lemma parseLines_append: "parseLines st (xs @ ys) = parseLines (parseLines st xs) ys"
  by (simp add: parseLines_def)

lemma urls_parseLines:
  "map url (channels (parseLines st ls)) = map url (channels st) @ map trim (filter isPlaybackLine ls)"
  by (induction ls arbitrary: st) (auto simp: channels_parseLine)

lemma channels_prefix_parseLines:
  "\<exists>ext. channels (parseLines st ls) = channels st @ ext"
proof (induction ls arbitrary: st)
  case Nil
  then show ?case by simp
next
  case (Cons a ls)
  obtain ext where "channels (parseLines (parseLine st a) ls) = channels (parseLine st a) @ ext"
    using Cons.IH by blast
  then show ?case by (simp add: channels_parseLine)
qed

lemma length_channels_parseLines:
  "length (channels (parseLines st ls)) = length (channels st) + length (filter isPlaybackLine ls)"
  using arg_cong[OF urls_parseLines[of st ls], of length] by simp

lemma pending_after_playback:
  "ls \<noteq> [] \<Longrightarrow> isPlaybackLine (last ls) \<Longrightarrow> pendingDefault (parseLines st ls)"
proof -
  assume "ls \<noteq> []" "isPlaybackLine (last ls)"
  then obtain xs where ls: "ls = xs @ [last ls]" by (metis append_butlast_last_id)
  have "parseLines st ls = parseLine (parseLines st xs) (last ls)"
    by (subst ls) (simp add: parseLines_append)
  with \<open>isPlaybackLine (last ls)\<close> show ?thesis by (simp add: parseLine_playback)
qed

lemma parseLines_gap:
  "\<forall>g\<in>set gap. \<not> isPlaybackLine g \<and> \<not> isMetadataLine g \<Longrightarrow> parseLines st gap = st"
  by (induction gap arbitrary: st) (auto simp: parseLine_ignored)

lemma seriesCheck_Nil: "seriesCheck [] = (None, None, None)"
  by code_simp

lemma makeChannel_default:
  "pendingDefault st \<Longrightarrow>
   makeChannel st l =
     \<lparr>id_c = ''ch-'' @ showNat (length (channels st)), name = ''Unknown Channel'', logo = [],
      group_c = ''Uncategorized'', url = l, seriesName = None, season = None, episode = None\<rparr>"
  by (simp add: makeChannel_def pendingDefault_def seriesCheck_Nil orElse_def)

lemma pending_initial: "pendingDefault initialState"
  by (simp add: pendingDefault_def initialState_def)


section \<open>The matcher\<close>

lemma first_some_SomeD: "first_some f xs = Some y \<Longrightarrow> \<exists>x\<in>set xs. f x = Some y"
  by (induction xs) (auto split: option.splits)

lemma first_some_not_None: "x \<in> set xs \<Longrightarrow> f x \<noteq> None \<Longrightarrow> first_some f xs \<noteq> None"
  by (induction xs) (auto split: option.splits)

lemma take_takeWhile_all:
  "k \<le> length (takeWhile P s) \<Longrightarrow> list_all P (take k s)"
proof (induction s arbitrary: k)
  case Nil
  then show ?case by simp
next
  case (Cons c s)
  then show ?case by (cases k) (auto split: if_splits)
qed

lemma upt_range: "set (rev [n ..< Suc m]) \<subseteq> {n .. m}" "set [n ..< Suc m] \<subseteq> {n .. m}"
  by auto

lemma run_step:
  assumes "first_some (\<lambda>k. map_option ((#) (take k s)) (bt as (drop k s))) ks = Some ps"
    and "set ks \<subseteq> {n .. length (takeWhile P s)}"
  shows "\<exists>k ps'. n \<le> k \<and> k \<le> length s \<and> list_all P (take k s) \<and> ps = take k s # ps'
           \<and> bt as (drop k s) = Some ps'"
proof -
  from first_some_SomeD[OF assms(1)] obtain k where
    k: "k \<in> set ks" "map_option ((#) (take k s)) (bt as (drop k s)) = Some ps" by blast
  then obtain ps' where ps': "bt as (drop k s) = Some ps'" "ps = take k s # ps'" by auto
  from k assms(2) have r: "n \<le> k" "k \<le> length (takeWhile P s)" by auto
  from r(2) have "k \<le> length s" using length_takeWhile_le[of P s] by simp
  with r ps' take_takeWhile_all[OF r(2)] show ?thesis by blast
qed

lemma bt_sound:
  "bt as s = Some ps \<Longrightarrow> list_all2 conforms as ps \<and> (\<exists>rest. s = concat ps @ rest)"
proof (induction as arbitrary: s ps)
  case Nil
  then show ?case by simp
next
  case (Cons a as)
  show ?case
  proof (cases a)
    case (One P)
    with Cons.prems obtain c s' ps' where
      s: "s = c # s'" "P c" "bt as s' = Some ps'" "ps = [c] # ps'"
      by (auto split: list.splits if_splits)
    from Cons.IH[OF s(3)] obtain rest where
      r: "list_all2 conforms as ps'" "s' = concat ps' @ rest" by blast
    have "s = concat ps @ rest" unfolding s(1,4) using r(2) by simp
    then have e: "\<exists>rest. s = concat ps @ rest" ..
    have "list_all2 conforms (a # as) ps" unfolding s(4) One using r(1) s(2) by simp
    then show ?thesis using e by (rule conjI)
  next
    case (Greedy n P)
    with Cons.prems have
      "first_some (\<lambda>k. map_option ((#) (take k s)) (bt as (drop k s)))
         (rev [n ..< Suc (length (takeWhile P s))]) = Some ps" by simp
    from run_step[OF this upt_range(1)] obtain k ps' where
      k: "n \<le> k" "k \<le> length s" "list_all P (take k s)" "ps = take k s # ps'"
         "bt as (drop k s) = Some ps'" by blast
    from Cons.IH[OF k(5)] obtain rest where
      r: "list_all2 conforms as ps'" "drop k s = concat ps' @ rest" by blast
    have "s = take k s @ drop k s" by simp
    also have "\<dots> = take k s @ concat ps' @ rest" unfolding r(2) ..
    also have "\<dots> = concat ps @ rest" unfolding k(4) by simp
    finally have e: "\<exists>rest. s = concat ps @ rest" ..
    have "length (take k s) = k" using k(2) by simp
    with k(1,3) have "conforms a (take k s)" unfolding Greedy by simp
    with r(1) have "list_all2 conforms (a # as) ps" unfolding k(4) by simp
    then show ?thesis using e by (rule conjI)
  next
    case (Lazy n P)
    with Cons.prems have
      "first_some (\<lambda>k. map_option ((#) (take k s)) (bt as (drop k s)))
         [n ..< Suc (length (takeWhile P s))] = Some ps" by simp
    from run_step[OF this upt_range(2)] obtain k ps' where
      k: "n \<le> k" "k \<le> length s" "list_all P (take k s)" "ps = take k s # ps'"
         "bt as (drop k s) = Some ps'" by blast
    from Cons.IH[OF k(5)] obtain rest where
      r: "list_all2 conforms as ps'" "drop k s = concat ps' @ rest" by blast
    have "s = take k s @ drop k s" by simp
    also have "\<dots> = take k s @ concat ps' @ rest" unfolding r(2) ..
    also have "\<dots> = concat ps @ rest" unfolding k(4) by simp
    finally have e: "\<exists>rest. s = concat ps @ rest" ..
    have "length (take k s) = k" using k(2) by simp
    with k(1,3) have "conforms a (take k s)" unfolding Lazy by simp
    with r(1) have "list_all2 conforms (a # as) ps" unfolding k(4) by simp
    then show ?thesis using e by (rule conjI)
  next
    case (OptLit l)
    show ?thesis
    proof (cases "startsWith s l \<and> bt as (drop (length l) s) \<noteq> None")
      case True
      then obtain ps' where ps': "bt as (drop (length l) s) = Some ps'" by auto
      with True Cons.prems OptLit have p: "ps = l # ps'" by simp
      from True have "s = l @ drop (length l) s"
        by (metis append_take_drop_id startsWith_def)
      moreover from Cons.IH[OF ps'] obtain rest where
        r: "list_all2 conforms as ps'" "drop (length l) s = concat ps' @ rest" by blast
      ultimately have "s = l @ concat ps' @ rest" by simp
      also have "\<dots> = concat ps @ rest" unfolding p by simp
      finally have e: "\<exists>rest. s = concat ps @ rest" ..
      have "list_all2 conforms (a # as) ps" unfolding p OptLit using r(1) by simp
      then show ?thesis using e by (rule conjI)
    next
      case False
      with Cons.prems OptLit obtain ps' where ps': "bt as s = Some ps'" "ps = [] # ps'"
        by (auto split: if_splits option.splits)
      from Cons.IH[OF ps'(1)] obtain rest where
        r: "list_all2 conforms as ps'" "s = concat ps' @ rest" by blast
      from r(2) have "s = concat ps @ rest" unfolding ps'(2) by simp
      then have e: "\<exists>rest. s = concat ps @ rest" ..
      have "list_all2 conforms (a # as) ps" unfolding ps'(2) OptLit using r(1) by simp
      then show ?thesis using e by (rule conjI)
    qed
  qed
qed

lemma length_takeWhile_prefix:
  "list_all P p \<Longrightarrow> length p \<le> length (takeWhile P (p @ r))"
  by (induction p) auto

lemma bt_complete:
  "list_all2 conforms as ps \<Longrightarrow> bt as (concat ps @ rest) \<noteq> None"
proof (induction as arbitrary: ps rest)
  case Nil
  then show ?case by simp
next
  case (Cons a as)
  from Cons.prems obtain p ps' where ps: "ps = p # ps'" "conforms a p" "list_all2 conforms as ps'"
    by (auto simp: list_all2_Cons1)
  let ?s = "concat ps @ rest"
  have s: "?s = p @ (concat ps' @ rest)" by (simp add: ps)
  from Cons.IH[OF ps(3)] have ih: "bt as (concat ps' @ rest) \<noteq> None" .
  show ?case
  proof (cases a)
    case (One P)
    with ps(2) obtain c where "p = [c]" "P c" by (auto split: list.splits)
    with ih One show ?thesis by (simp add: ps)
  next
    case (Greedy n P)
    with ps(2) have c: "n \<le> length p" "list_all P p" by auto
    let ?f = "\<lambda>k. map_option ((#) (take k ?s)) (bt as (drop k ?s))"
    from c length_takeWhile_prefix[OF c(2), of "concat ps' @ rest"]
    have "length p \<in> set (rev [n ..< Suc (length (takeWhile P ?s))])" by (auto simp: s)
    moreover have "?f (length p) \<noteq> None" using ih by (simp add: s)
    ultimately have "first_some ?f (rev [n ..< Suc (length (takeWhile P ?s))]) \<noteq> None"
      by (rule first_some_not_None)
    with Greedy show ?thesis by simp
  next
    case (Lazy n P)
    with ps(2) have c: "n \<le> length p" "list_all P p" by auto
    let ?f = "\<lambda>k. map_option ((#) (take k ?s)) (bt as (drop k ?s))"
    from c length_takeWhile_prefix[OF c(2), of "concat ps' @ rest"]
    have "length p \<in> set [n ..< Suc (length (takeWhile P ?s))]" by (auto simp: s)
    moreover have "?f (length p) \<noteq> None" using ih by (simp add: s)
    ultimately have "first_some ?f [n ..< Suc (length (takeWhile P ?s))] \<noteq> None"
      by (rule first_some_not_None)
    with Lazy show ?thesis by simp
  next
    case (OptLit l)
    with ps(2) consider "p = l" | "p = []" by auto
    then show ?thesis
    proof cases
      case 1
      then have "startsWith ?s l" "drop (length l) ?s = concat ps' @ rest"
        by (simp_all add: s startsWith_def)
      with ih OptLit show ?thesis by (auto split: option.splits)
    next
      case 2
      then have "?s = concat ps' @ rest" by (simp add: s)
      with ih OptLit show ?thesis by (auto split: option.splits)
    qed
  qed
qed

lemma conforms_One: "conforms (One P) p \<longleftrightarrow> (\<exists>c. p = [c] \<and> P c)"
  by (cases p) (auto split: list.splits)

lemma conforms_seriesRegex:
  "list_all2 conforms seriesRegex m \<longleftrightarrow>
     (\<exists>t w sC sd w' eC ed.
        m = [t, w, [sC], sd, w', [eC], ed]
        \<and> list_all (\<lambda>c. \<not> isLineTerminator c) t
        \<and> 1 \<le> length w \<and> list_all isWhiteSpace w
        \<and> (sC = CHR ''S'' \<or> sC = CHR ''s'')
        \<and> 1 \<le> length sd \<and> list_all isDigit sd
        \<and> list_all isWhiteSpace w'
        \<and> (eC = CHR ''E'' \<or> eC = CHR ''e'')
        \<and> 1 \<le> length ed \<and> list_all isDigit ed)"
  unfolding seriesRegex_def litI_def
  by (auto simp: list_all2_Cons1 conforms_One simp del: conforms.simps(1))

lemma seriesRegex_sound:
  assumes "matchAtStart seriesRegex nm = Some m"
  shows "\<exists>t sd ed rest. m ! 0 = t \<and> m ! 3 = sd \<and> m ! 6 = ed \<and> seriesPattern nm t sd ed rest"
proof -
  from assms have b: "bt seriesRegex nm = Some m" by (simp add: matchAtStart_def)
  from bt_sound[OF b] obtain rest where
    c: "list_all2 conforms seriesRegex m" and r: "nm = concat m @ rest" by blast
  from c[unfolded conforms_seriesRegex] obtain t w sC sd w' eC ed where
    m: "m = [t, w, [sC], sd, w', [eC], ed]"
    and p: "list_all (\<lambda>c. \<not> isLineTerminator c) t" "1 \<le> length w" "list_all isWhiteSpace w"
       "sC = CHR ''S'' \<or> sC = CHR ''s''" "1 \<le> length sd" "list_all isDigit sd"
       "list_all isWhiteSpace w'" "eC = CHR ''E'' \<or> eC = CHR ''e''" "1 \<le> length ed"
       "list_all isDigit ed"
    by blast
  from r m have "nm = t @ w @ [sC] @ sd @ w' @ [eC] @ ed @ rest" by simp
  moreover from p have "w \<noteq> []" "sd \<noteq> []" "ed \<noteq> []" by auto
  ultimately have "seriesPattern nm t sd ed rest"
    unfolding seriesPattern_def using p by blast
  then show ?thesis by (auto simp: m)
qed

lemma seriesRegex_complete:
  assumes "seriesPattern nm t sd ed rest"
  shows "matchAtStart seriesRegex nm \<noteq> None"
proof -
  from assms obtain w sC w' eC where
    n: "nm = t @ w @ [sC] @ sd @ w' @ [eC] @ ed @ rest"
    and p: "list_all (\<lambda>c. \<not> isLineTerminator c) t" "w \<noteq> []" "list_all isWhiteSpace w"
       "sC = CHR ''S'' \<or> sC = CHR ''s''" "sd \<noteq> []" "list_all isDigit sd"
       "list_all isWhiteSpace w'" "eC = CHR ''E'' \<or> eC = CHR ''e''" "ed \<noteq> []"
       "list_all isDigit ed"
    unfolding seriesPattern_def by blast
  let ?m = "[t, w, [sC], sd, w', [eC], ed]"
  from p have l: "1 \<le> length w" "1 \<le> length sd" "1 \<le> length ed"
    by (simp_all add: Suc_le_eq)
  have "list_all2 conforms seriesRegex ?m"
    unfolding conforms_seriesRegex using p l by blast
  from bt_complete[OF this, of rest] have "bt seriesRegex (concat ?m @ rest) \<noteq> None" .
  moreover have "concat ?m @ rest = nm" by (simp add: n)
  ultimately show ?thesis by (simp add: matchAtStart_def)
qed

lemma isDigit_not_space: "isDigit c \<Longrightarrow> \<not> isWhiteSpace c \<and> c \<noteq> CHR ''-'' \<and> c \<noteq> CHR ''+''"
  by (auto simp: isDigit_def isWhiteSpace_def)

lemma parseInt10_digits:
  assumes "ds \<noteq> []" "list_all isDigit ds"
  shows "parseInt10 ds = Some (decimal ds)"
proof -
  from assms obtain c r where d: "ds = c # r" "isDigit c" by (cases ds) auto
  with isDigit_not_space[of c] have
    1: "dropWhile isWhiteSpace ds = ds" and 2: "c \<noteq> CHR ''-''" "c \<noteq> CHR ''+''" by auto
  from assms(2) have 3: "takeWhile isDigit ds = ds" by (simp add: list_all_iff)
  show ?thesis
    unfolding parseInt10_def 1 Let_def using 2 3 assms(1) by (simp add: d(1))
qed

lemma seriesCheck_Some:
  assumes "matchAtStart seriesRegex nm = Some m"
  shows "\<exists>t sd ed rest. seriesPattern nm t sd ed rest
           \<and> seriesCheck nm = (Some (trim t), Some (decimal sd), Some (decimal ed))"
proof -
  from seriesRegex_sound[OF assms] obtain t sd ed rest where
    m: "m ! 0 = t" "m ! 3 = sd" "m ! 6 = ed" and h: "seriesPattern nm t sd ed rest" by blast
  from h have "sd \<noteq> []" "list_all isDigit sd" "ed \<noteq> []" "list_all isDigit ed"
    unfolding seriesPattern_def by blast+
  then have "parseInt10 sd = Some (decimal sd)" "parseInt10 ed = Some (decimal ed)"
    by (simp_all add: parseInt10_digits)
  with m assms have "seriesCheck nm = (Some (trim t), Some (decimal sd), Some (decimal ed))"
    by (simp add: seriesCheck_def)
  with h show ?thesis by blast
qed

lemma first_some_least:
  "first_some f xs = Some y \<Longrightarrow> \<exists>i<length xs. f (xs ! i) = Some y \<and> (\<forall>j<i. f (xs ! j) = None)"
proof (induction xs)
  case Nil
  then show ?case by simp
next
  case (Cons x xs)
  show ?case
  proof (cases "f x")
    case None
    with Cons.prems have "first_some f xs = Some y" by simp
    from Cons.IH[OF this] obtain i where
      i: "i < length xs" "f (xs ! i) = Some y" "\<forall>j<i. f (xs ! j) = None" by blast
    have "\<forall>j<Suc i. f ((x # xs) ! j) = None"
    proof (intro allI impI)
      fix j assume "j < Suc i"
      with None i(3) show "f ((x # xs) ! j) = None" by (cases j) simp_all
    qed
    with i(1,2) show ?thesis by (intro exI[of _ "Suc i"]) simp
  next
    case (Some z)
    with Cons.prems have "f x = Some y" by simp
    then show ?thesis by (intro exI[of _ 0]) simp
  qed
qed

lemma lazy_least:
  assumes "bt (Lazy n P # as) s = Some (p # ps)" "n \<le> k" "k < length p"
  shows "bt as (drop k s) = None"
proof -
  let ?f = "\<lambda>k. map_option ((#) (take k s)) (bt as (drop k s))"
  let ?m = "length (takeWhile P s)"
  from assms(1) have "first_some ?f [n ..< Suc ?m] = Some (p # ps)" by simp
  from first_some_least[OF this] obtain i where
    i: "i < length [n ..< Suc ?m]" "?f ([n ..< Suc ?m] ! i) = Some (p # ps)"
       "\<forall>j<i. ?f ([n ..< Suc ?m] ! j) = None" by blast
  from i(1) have b: "n + i < Suc ?m" unfolding length_upt by arith
  then have x: "[n ..< Suc ?m] ! i = n + i" by (rule nth_upt)
  from i(2) have "p = take (n + i) s" unfolding x by auto
  moreover from b have "n + i \<le> length s" using length_takeWhile_le[of P s] by simp
  ultimately have "length p = n + i" by simp
  with assms(2,3) have j: "k - n < i" "n + (k - n) = k" by simp_all
  with b have "n + (k - n) < Suc ?m" by simp
  then have "[n ..< Suc ?m] ! (k - n) = k" using j(2) nth_upt[of n "k - n" "Suc ?m"] by simp
  with i(3) j(1) have "?f k = None" by metis
  then show ?thesis by simp
qed

lemma bt_ConsD:
  assumes "bt (a # as) s = Some ps"
  shows "\<exists>p ps'. ps = p # ps' \<and> bt as (drop (length p) s) = Some ps'"
proof (cases a)
  case (One P)
  with assms obtain c s' ps' where
    s: "s = c # s'" "bt as s' = Some ps'" "ps = [c] # ps'"
    by (auto split: list.splits if_splits)
  then show ?thesis by simp
next
  case (Greedy n P)
  with assms have
    "first_some (\<lambda>k. map_option ((#) (take k s)) (bt as (drop k s)))
       (rev [n ..< Suc (length (takeWhile P s))]) = Some ps" by simp
  from run_step[OF this upt_range(1)] obtain k ps' where
    k: "k \<le> length s" "ps = take k s # ps'" "bt as (drop k s) = Some ps'" by blast
  from k(1) have "length (take k s) = k" by simp
  with k(2,3) show ?thesis by simp
next
  case (Lazy n P)
  with assms have
    "first_some (\<lambda>k. map_option ((#) (take k s)) (bt as (drop k s)))
       [n ..< Suc (length (takeWhile P s))] = Some ps" by simp
  from run_step[OF this upt_range(2)] obtain k ps' where
    k: "k \<le> length s" "ps = take k s # ps'" "bt as (drop k s) = Some ps'" by blast
  from k(1) have "length (take k s) = k" by simp
  with k(2,3) show ?thesis by simp
next
  case (OptLit l)
  show ?thesis
  proof (cases "startsWith s l \<and> bt as (drop (length l) s) \<noteq> None")
    case True
    then obtain ps' where ps': "bt as (drop (length l) s) = Some ps'" by auto
    with True assms OptLit have "ps = l # ps'" by simp
    with ps' show ?thesis by simp
  next
    case False
    with assms OptLit obtain ps' where "bt as s = Some ps'" "ps = [] # ps'"
      by (auto split: if_splits option.splits)
    then show ?thesis by simp
  qed
qed

lemma bt_greedy_last:
  "bt [Greedy n P] s = Some ps \<Longrightarrow> ps = [takeWhile P s]"
proof -
  let ?m = "length (takeWhile P s)"
  let ?f = "\<lambda>k. map_option ((#) (take k s)) (bt [] (drop k s))"
  assume a: "bt [Greedy n P] s = Some ps"
  have "n \<le> ?m"
  proof (rule ccontr)
    assume "\<not> n \<le> ?m"
    then have "[n ..< Suc ?m] = []" by simp
    with a show False by simp
  qed
  then have "rev [n ..< Suc ?m] = ?m # rev [n ..< ?m]" by simp
  with a have "first_some ?f (?m # rev [n ..< ?m]) = Some ps" by simp
  then have "ps = [take ?m s]" by simp
  also have "take ?m s = takeWhile P s" by (rule takeWhile_eq_take[symmetric])
  finally show ?thesis .
qed

lemma bt_last_greedy:
  "bt (as @ [Greedy n P]) s = Some ps \<Longrightarrow>
     \<exists>qs. ps = qs @ [takeWhile P (drop (length (concat qs)) s)]"
proof (induction as arbitrary: s ps)
  case Nil
  then have "ps = [takeWhile P s]" using bt_greedy_last by simp
  then show ?case by (intro exI[of _ "[]"]) simp
next
  case (Cons a as)
  from Cons.prems have "bt (a # (as @ [Greedy n P])) s = Some ps" by simp
  from bt_ConsD[OF this] obtain p ps' where
    p: "ps = p # ps'" "bt (as @ [Greedy n P]) (drop (length p) s) = Some ps'" by blast
  from Cons.IH[OF p(2)] obtain qs where
    q: "ps' = qs @ [takeWhile P (drop (length (concat qs)) (drop (length p) s))]" by blast
  have "drop (length (concat qs)) (drop (length p) s) = drop (length (concat (p # qs))) s"
    by (simp add: add.commute)
  with q have "ps = (p # qs) @ [takeWhile P (drop (length (concat (p # qs))) s)]"
    unfolding p(1) by simp
  then show ?case ..
qed

lemma run_unique:
  assumes "a @ b = a' @ b'" "list_all P a" "list_all P a'"
    "takeWhile P b = []" "takeWhile P b' = []"
  shows "a = a' \<and> b = b'"
proof -
  from assms(2,4) have "takeWhile P (a @ b) = a" by (simp add: list_all_iff)
  moreover from assms(3,5) have "takeWhile P (a' @ b') = a'" by (simp add: list_all_iff)
  ultimately have "a = a'" using assms(1) by simp
  with assms(1) show ?thesis by simp
qed


lemma seriesPattern_title_end:
  assumes "seriesPattern nm t sd ed rest"
  shows "length t < length nm \<and> isWhiteSpace (nm ! length t)"
proof -
  from assms obtain w r where n: "nm = t @ w @ r" and w: "w \<noteq> []" "list_all isWhiteSpace w"
    unfolding seriesPattern_def by blast
  from w obtain c w0 where c: "w = c # w0" "isWhiteSpace c" by (cases w) auto
  with n show ?thesis by (simp add: nth_append)
qed

lemma title_minimal:
  assumes "list_all (\<lambda>c. \<not> isWhiteSpace c) t" "nm = t @ r" "seriesPattern nm t' sd' ed' rest'"
  shows "length t \<le> length t'"
proof (rule ccontr)
  assume "\<not> length t \<le> length t'"
  then have l: "length t' < length t" by simp
  then have "nm ! length t' = t ! length t'" unfolding assms(2) by (simp add: nth_append)
  moreover from l assms(1) have "\<not> isWhiteSpace (t ! length t')" by (simp add: list_all_length)
  ultimately show False using seriesPattern_title_end[OF assms(3)] by simp
qed

lemma firstSeriesPatternI:
  assumes "seriesPattern nm t sd ed rest" "takeWhile isDigit rest = []"
    "list_all (\<lambda>c. \<not> isWhiteSpace c) t"
  shows "firstSeriesPattern nm t sd ed rest"
proof -
  from assms(1) obtain r where "nm = t @ r" unfolding seriesPattern_def by auto
  from title_minimal[OF assms(3) this] assms(1,2) show ?thesis
    unfolding firstSeriesPattern_def by blast
qed

lemma seriesTail_complete:
  assumes "seriesPattern nm t sd ed rest"
  shows "bt (tl seriesRegex) (drop (length t) nm) \<noteq> None"
proof -
  from assms obtain w sC w' eC where
    n: "nm = t @ w @ [sC] @ sd @ w' @ [eC] @ ed @ rest"
    and p: "list_all (\<lambda>c. \<not> isLineTerminator c) t" "w \<noteq> []" "list_all isWhiteSpace w"
       "sC = CHR ''S'' \<or> sC = CHR ''s''" "sd \<noteq> []" "list_all isDigit sd"
       "list_all isWhiteSpace w'" "eC = CHR ''E'' \<or> eC = CHR ''e''" "ed \<noteq> []"
       "list_all isDigit ed"
    unfolding seriesPattern_def by blast
  let ?q = "[w, [sC], sd, w', [eC], ed]"
  from p have l: "1 \<le> length w" "1 \<le> length sd" "1 \<le> length ed"
    by (simp_all add: Suc_le_eq)
  have "list_all2 conforms seriesRegex (t # ?q)"
    unfolding conforms_seriesRegex using p l by blast
  moreover have "seriesRegex = hd seriesRegex # tl seriesRegex" by (simp add: seriesRegex_def)
  ultimately have "list_all2 conforms (hd seriesRegex # tl seriesRegex) (t # ?q)" by simp
  then have "list_all2 conforms (tl seriesRegex) ?q" unfolding list_all2_Cons by (rule conjunct2)
  from bt_complete[OF this, of rest] have "bt (tl seriesRegex) (concat ?q @ rest) \<noteq> None" .
  moreover have "drop (length t) nm = concat ?q @ rest" by (simp add: n)
  ultimately show ?thesis by simp
qed

lemma seriesRegex_first:
  assumes "matchAtStart seriesRegex nm = Some m"
  shows "\<exists>t sd ed rest. m ! 0 = t \<and> m ! 3 = sd \<and> m ! 6 = ed \<and> firstSeriesPattern nm t sd ed rest"
proof -
  from assms have b: "bt seriesRegex nm = Some m" by (simp add: matchAtStart_def)
  from bt_sound[OF b] obtain rest where
    c: "list_all2 conforms seriesRegex m" and r: "nm = concat m @ rest" by blast
  from c[unfolded conforms_seriesRegex] obtain t w sC sd w' eC ed where
    m: "m = [t, w, [sC], sd, w', [eC], ed]"
    and p: "list_all (\<lambda>c. \<not> isLineTerminator c) t" "1 \<le> length w" "list_all isWhiteSpace w"
       "sC = CHR ''S'' \<or> sC = CHR ''s''" "1 \<le> length sd" "list_all isDigit sd"
       "list_all isWhiteSpace w'" "eC = CHR ''E'' \<or> eC = CHR ''e''" "1 \<le> length ed"
       "list_all isDigit ed"
    by blast
  from r m have n: "nm = t @ w @ [sC] @ sd @ w' @ [eC] @ ed @ rest" by simp
  moreover from p have "w \<noteq> []" "sd \<noteq> []" "ed \<noteq> []" by auto
  ultimately have sp: "seriesPattern nm t sd ed rest"
    unfolding seriesPattern_def using p by blast
  \<comment> \<open>the last quantifier is greedy: the episode digits are the longest run\<close>
  let ?pre = "[t, w, [sC], sd, w', [eC]]"
  have "seriesRegex = butlast seriesRegex @ [Greedy 1 isDigit]" by (simp add: seriesRegex_def)
  with b have "bt (butlast seriesRegex @ [Greedy 1 isDigit]) nm = Some m" by simp
  from bt_last_greedy[OF this] obtain qs where
    q: "m = qs @ [takeWhile isDigit (drop (length (concat qs)) nm)]" by blast
  have "m = ?pre @ [ed]" by (simp add: m)
  with q have "qs = ?pre" "ed = takeWhile isDigit (drop (length (concat qs)) nm)" by simp_all
  then have "ed = takeWhile isDigit (drop (length (concat ?pre)) nm)" by simp
  also have "drop (length (concat ?pre)) nm = ed @ rest" by (simp add: n)
  also have "takeWhile isDigit (ed @ rest) = ed @ takeWhile isDigit rest"
    using p(10) by (simp add: list_all_iff)
  finally have mx: "takeWhile isDigit rest = []" by simp
  \<comment> \<open>the first quantifier is lazy: no shorter title is followed by the pattern\<close>
  have mn: "length t \<le> length t'" if h: "seriesPattern nm t' sd' ed' rest'" for t' sd' ed' rest'
  proof (rule ccontr)
    assume "\<not> length t \<le> length t'"
    then have l: "length t' < length t" by simp
    have "seriesRegex = Lazy 0 (\<lambda>c. \<not> isLineTerminator c) # tl seriesRegex"
      by (simp add: seriesRegex_def)
    with b have "bt (Lazy 0 (\<lambda>c. \<not> isLineTerminator c) # tl seriesRegex) nm
                   = Some (t # [w, [sC], sd, w', [eC], ed])"
      by (simp add: m)
    from lazy_least[OF this _ l] have "bt (tl seriesRegex) (drop (length t') nm) = None" by simp
    with seriesTail_complete[OF h] show False by simp
  qed
  from sp mx mn have "firstSeriesPattern nm t sd ed rest"
    unfolding firstSeriesPattern_def by blast
  then show ?thesis by (auto simp: m)
qed

lemma letters_not_space:
  "\<not> isWhiteSpace (CHR ''S'')" "\<not> isWhiteSpace (CHR ''s'')"
  "\<not> isWhiteSpace (CHR ''E'')" "\<not> isWhiteSpace (CHR ''e'')"
  "\<not> isDigit (CHR ''E'')" "\<not> isDigit (CHR ''e'')"
  by (simp_all add: isWhiteSpace_def isDigit_def)

lemma space_not_digit: "isWhiteSpace c \<Longrightarrow> \<not> isDigit c"
  by (auto simp: isDigit_def isWhiteSpace_def)

lemma firstSeriesPattern_unique:
  assumes "firstSeriesPattern nm t sd ed rest" "firstSeriesPattern nm t' sd' ed' rest'"
  shows "t = t' \<and> sd = sd' \<and> ed = ed' \<and> rest = rest'"
proof -
  from assms have sp: "seriesPattern nm t sd ed rest" "seriesPattern nm t' sd' ed' rest'"
    and mx: "takeWhile isDigit rest = []" "takeWhile isDigit rest' = []"
    unfolding firstSeriesPattern_def by blast+
  from assms sp have "length t \<le> length t'" "length t' \<le> length t"
    unfolding firstSeriesPattern_def by blast+
  then have lt: "length t = length t'" by simp
  from sp(1) obtain w sC v eC where
    n: "nm = t @ w @ [sC] @ sd @ v @ [eC] @ ed @ rest"
    and p: "list_all isWhiteSpace w" "sC = CHR ''S'' \<or> sC = CHR ''s''" "list_all isDigit sd"
       "list_all isWhiteSpace v" "eC = CHR ''E'' \<or> eC = CHR ''e''" "list_all isDigit ed"
    unfolding seriesPattern_def by blast
  from sp(2) obtain w' sC' v' eC' where
    n': "nm = t' @ w' @ [sC'] @ sd' @ v' @ [eC'] @ ed' @ rest'"
    and p': "list_all isWhiteSpace w'" "sC' = CHR ''S'' \<or> sC' = CHR ''s''" "list_all isDigit sd'"
       "list_all isWhiteSpace v'" "eC' = CHR ''E'' \<or> eC' = CHR ''e''" "list_all isDigit ed'"
    unfolding seriesPattern_def by blast
  from n n' lt have 1: "t = t'"
    and e1: "w @ (sC # sd @ v @ [eC] @ ed @ rest) = w' @ (sC' # sd' @ v' @ [eC'] @ ed' @ rest')"
    by simp_all
  have "takeWhile isWhiteSpace (sC # sd @ v @ [eC] @ ed @ rest) = []"
       "takeWhile isWhiteSpace (sC' # sd' @ v' @ [eC'] @ ed' @ rest') = []"
    using p(2) p'(2) letters_not_space by auto
  from run_unique[OF e1 p(1) p'(1) this]
  have e2: "sd @ (v @ eC # ed @ rest) = sd' @ (v' @ eC' # ed' @ rest')" by simp
  have nd: "takeWhile isDigit (x @ c # y) = []"
    if "list_all isWhiteSpace x" "c = CHR ''E'' \<or> c = CHR ''e''" for x c y
    using that letters_not_space space_not_digit by (cases x) auto
  from run_unique[OF e2 p(3) p'(3) nd[OF p(4,5)] nd[OF p'(4,5)]]
  have 2: "sd = sd'" and e3: "v @ (eC # ed @ rest) = v' @ (eC' # ed' @ rest')" by simp_all
  have "takeWhile isWhiteSpace (eC # ed @ rest) = []"
       "takeWhile isWhiteSpace (eC' # ed' @ rest') = []"
    using p(5) p'(5) letters_not_space by auto
  from run_unique[OF e3 p(4) p'(4) this] have e4: "ed @ rest = ed' @ rest'" by simp
  from run_unique[OF e4 p(6) p'(6) mx] 1 2 show ?thesis by simp
qed

lemma seriesCheck_first:
  assumes "firstSeriesPattern nm t sd ed rest"
  shows "seriesCheck nm = (Some (trim t), Some (decimal sd), Some (decimal ed))"
proof -
  from assms have sp: "seriesPattern nm t sd ed rest" unfolding firstSeriesPattern_def by blast
  from seriesRegex_complete[OF sp] obtain m where m: "matchAtStart seriesRegex nm = Some m"
    by blast
  from seriesRegex_first[OF m] obtain rest' where
    "firstSeriesPattern nm (m ! 0) (m ! 3) (m ! 6) rest'" by blast
  from firstSeriesPattern_unique[OF this assms]
  have e: "m ! 0 = t" "m ! 3 = sd" "m ! 6 = ed" by simp_all
  from sp have "sd \<noteq> []" "list_all isDigit sd" "ed \<noteq> []" "list_all isDigit ed"
    unfolding seriesPattern_def by blast+
  then have "parseInt10 sd = Some (decimal sd)" "parseInt10 ed = Some (decimal ed)"
    by (simp_all add: parseInt10_digits)
  with m e show ?thesis by (simp add: seriesCheck_def)
qed

lemma seriesCheck_None_iff:
  "seriesCheck nm = (None, None, None) \<longleftrightarrow> matchAtStart seriesRegex nm = None"
  by (simp add: seriesCheck_def split: option.splits)

lemma seriesCheck_unknown: "seriesCheck ''Unknown Channel'' = (None, None, None)"
  by code_simp

lemma fields_makeChannel:
  "(seriesName (makeChannel st l), season (makeChannel st l), episode (makeChannel st l))
     = seriesCheck (name (makeChannel st l))"
proof (cases "currentName st = []")
  case True
  then show ?thesis
    by (simp add: makeChannel_def orElse_def seriesCheck_Nil seriesCheck_unknown)
next
  case False
  then show ?thesis
    by (simp add: makeChannel_def orElse_def split: prod.splits)
qed

lemma fields_parseLines:
  assumes "\<forall>c\<in>set (channels st). (seriesName c, season c, episode c) = seriesCheck (name c)"
  shows "\<forall>c\<in>set (channels (parseLines st ls)). (seriesName c, season c, episode c) = seriesCheck (name c)"
  using assms
proof (induction ls arbitrary: st)
  case Nil
  then show ?case by simp
next
  case (Cons l ls)
  have "\<forall>c\<in>set (channels (parseLine st l)). (seriesName c, season c, episode c) = seriesCheck (name c)"
    using Cons.prems fields_makeChannel by (auto simp: channels_parseLine)
  from Cons.IH[OF this] show ?case by simp
qed




lemma concat_singletons: "concat (map (\<lambda>c. [c]) l) = l"
  by (induction l) simp_all

section \<open>The logo rewrite\<close>








section \<open>Series inference\<close>

lemma last_not_digit_not_trailing:
  assumes "nm \<noteq> []" "\<not> isDigit (last nm)"
  shows "\<not> trailingSeriesPattern nm"
proof
  assume "trailingSeriesPattern nm"
  then obtain t sd ed w sC w' eC where
    n: "nm = t @ w @ [sC] @ sd @ w' @ [eC] @ ed @ []" and e: "ed \<noteq> []" "list_all isDigit ed"
    unfolding trailingSeriesPattern_def seriesPattern_def by blast
  from n e(1) have "last nm = last ed" by simp
  with e have "isDigit (last nm)" by (simp add: list_all_iff)
  with assms(2) show False by simp
qed

text \<open>
  The claim C1 as it is stated, with the pattern trailing, fails on the name
  \<open>Breaking Bad S02 E05 HD\<close>: the regular expression is anchored at the start of the name
  only, so the series is inferred although the name does not end with the episode digits.
\<close>

theorem trailing_pattern_counterexample:
  "seriesCheck ''Breaking Bad S02 E05 HD'' = (Some ''Breaking Bad'', Some 2, Some 5)
   \<and> \<not> trailingSeriesPattern ''Breaking Bad S02 E05 HD''
   \<and> map name (parseM3U playlist4) = [''Breaking Bad S02 E05 HD'']
   \<and> map seriesName (parseM3U playlist4) = [Some ''Breaking Bad'']"
proof (intro conjI)
  show "seriesCheck ''Breaking Bad S02 E05 HD'' = (Some ''Breaking Bad'', Some 2, Some 5)"
    by code_simp
  have "\<not> isDigit (last ''Breaking Bad S02 E05 HD'')" by code_simp
  then show "\<not> trailingSeriesPattern ''Breaking Bad S02 E05 HD''"
    by (intro last_not_digit_not_trailing) simp_all
  show "map name (parseM3U playlist4) = [''Breaking Bad S02 E05 HD'']" by code_simp
  show "map seriesName (parseM3U playlist4) = [Some ''Breaking Bad'']" by code_simp
qed

text \<open>
  Claim C1, amended. The series fields of every parsed entry are those inferred from its
  display name. A series is inferred exactly when the name reads: a title without line
  terminator, white space, \<open>S\<close> or \<open>s\<close>, digits, any white space, \<open>E\<close> or \<open>e\<close>, digits, and
  then anything. A name that reads so has exactly one such reading with the shortest title
  and the longest run of episode digits; the series name is the title of that reading,
  trimmed, and season and episode are the numbers its two runs of digits write, for runs
  that write a number below \<open>2^53\<close>, which a JavaScript number holds exactly.
  \<open>Breaking Bad S02 E05\<close> gives \<open>Breaking Bad\<close>, 2 and 5; \<open>Inception (2010)\<close> leaves the
  three fields unset.
\<close>

theorem series_inference:
  "(\<forall>c \<in> set (parseM3U content). (seriesName c, season c, episode c) = seriesCheck (name c))
   \<and> (\<forall>nm. seriesCheck nm \<noteq> (None, None, None)
          \<longleftrightarrow> (\<exists>t sd ed rest. seriesPattern nm t sd ed rest))
   \<and> (\<forall>nm. (\<exists>t sd ed rest. seriesPattern nm t sd ed rest)
          \<longrightarrow> (\<exists>t sd ed rest. firstSeriesPattern nm t sd ed rest))
   \<and> (\<forall>nm t sd ed rest t' sd' ed' rest'.
          firstSeriesPattern nm t sd ed rest \<and> firstSeriesPattern nm t' sd' ed' rest'
          \<longrightarrow> t = t' \<and> sd = sd' \<and> ed = ed' \<and> rest = rest')
   \<and> (\<forall>nm t sd ed rest sn se ep.
          firstSeriesPattern nm t sd ed rest \<and> seriesCheck nm = (sn, se, ep)
          \<longrightarrow> sn = Some (trim t)
              \<and> (safeInteger (decimal sd) \<longrightarrow> se = Some (decimal sd))
              \<and> (safeInteger (decimal ed) \<longrightarrow> ep = Some (decimal ed)))
   \<and> seriesCheck ''Breaking Bad S02 E05'' = (Some ''Breaking Bad'', Some 2, Some 5)
   \<and> seriesCheck ''Inception (2010)'' = (None, None, None)"
proof (intro conjI allI impI)
  show "\<forall>c \<in> set (parseM3U content). (seriesName c, season c, episode c) = seriesCheck (name c)"
    unfolding parseM3U_def by (rule fields_parseLines) (simp add: initialState_def)
next
  fix nm
  show "seriesCheck nm \<noteq> (None, None, None) \<longleftrightarrow> (\<exists>t sd ed rest. seriesPattern nm t sd ed rest)"
  proof
    assume "seriesCheck nm \<noteq> (None, None, None)"
    then obtain m where "matchAtStart seriesRegex nm = Some m"
      by (auto simp: seriesCheck_None_iff)
    from seriesRegex_sound[OF this] show "\<exists>t sd ed rest. seriesPattern nm t sd ed rest" by blast
  next
    assume "\<exists>t sd ed rest. seriesPattern nm t sd ed rest"
    then have "matchAtStart seriesRegex nm \<noteq> None" using seriesRegex_complete by blast
    then show "seriesCheck nm \<noteq> (None, None, None)" by (simp add: seriesCheck_None_iff)
  qed
next
  fix nm
  assume "\<exists>t sd ed rest. seriesPattern nm t sd ed rest"
  then obtain m where "matchAtStart seriesRegex nm = Some m"
    using seriesRegex_complete by blast
  from seriesRegex_first[OF this]
  show "\<exists>t sd ed rest. firstSeriesPattern nm t sd ed rest" by blast
next
  fix nm t sd ed rest t' sd' ed' rest'
  assume "firstSeriesPattern nm t sd ed rest \<and> firstSeriesPattern nm t' sd' ed' rest'"
  then have a: "firstSeriesPattern nm t sd ed rest" and b: "firstSeriesPattern nm t' sd' ed' rest'"
    by simp_all
  from firstSeriesPattern_unique[OF a b]
  show "t = t'" "sd = sd'" "ed = ed'" "rest = rest'" by simp_all
next
  fix nm t sd ed rest sn se ep
  assume "firstSeriesPattern nm t sd ed rest \<and> seriesCheck nm = (sn, se, ep)"
  then have a: "firstSeriesPattern nm t sd ed rest" and b: "seriesCheck nm = (sn, se, ep)"
    by simp_all
  from seriesCheck_first[OF a] b
  have e: "sn = Some (trim t)" "se = Some (decimal sd)" "ep = Some (decimal ed)" by simp_all
  from e show "sn = Some (trim t)" by simp
  from e show "se = Some (decimal sd)" by simp
  from e show "ep = Some (decimal ed)" by simp
next
  show "seriesCheck ''Breaking Bad S02 E05'' = (Some ''Breaking Bad'', Some 2, Some 5)"
    by code_simp
  show "seriesCheck ''Inception (2010)'' = (None, None, None)"
    by code_simp
qed

theorem series_inference_witness:
  "parseM3U playlist3 ! 0 \<in> set (parseM3U playlist3)
   \<and> name (parseM3U playlist3 ! 0) = ''Breaking Bad S02 E05''
   \<and> (seriesName (parseM3U playlist3 ! 0), season (parseM3U playlist3 ! 0),
       episode (parseM3U playlist3 ! 0)) = (Some ''Breaking Bad'', Some 2, Some 5)
   \<and> parseM3U playlist3 ! 1 \<in> set (parseM3U playlist3)
   \<and> name (parseM3U playlist3 ! 1) = ''Inception (2010)''
   \<and> (seriesName (parseM3U playlist3 ! 1), season (parseM3U playlist3 ! 1),
       episode (parseM3U playlist3 ! 1)) = (None, None, None)
   \<and> seriesPattern ''Show S1E123 S2E5'' ''Show'' ''1'' ''12'' ''3 S2E5''
   \<and> seriesPattern ''Show S1E123 S2E5'' ''Show S1E123'' ''2'' ''5'' []
   \<and> firstSeriesPattern ''Show S1E123 S2E5'' ''Show'' ''1'' ''123'' '' S2E5''
   \<and> safeInteger (decimal ''1'') \<and> safeInteger (decimal ''123'')
   \<and> seriesCheck ''Show S1E123 S2E5'' = (Some ''Show'', Some 1, Some 123)
   \<and> (\<exists>t sd ed rest. firstSeriesPattern ''Show S1E123 S2E5'' t sd ed rest
          \<and> t = ''Show'' \<and> sd = ''1'' \<and> ed = ''123'' \<and> rest = '' S2E5'')"
proof -
  note main = series_inference[of playlist3]
  have m0: "parseM3U playlist3 ! 0 \<in> set (parseM3U playlist3)" by code_simp
  have m1: "parseM3U playlist3 ! 1 \<in> set (parseM3U playlist3)" by code_simp
  have n0: "name (parseM3U playlist3 ! 0) = ''Breaking Bad S02 E05''" by code_simp
  have n1: "name (parseM3U playlist3 ! 1) = ''Inception (2010)''" by code_simp
  from main have all: "\<forall>c \<in> set (parseM3U playlist3).
      (seriesName c, season c, episode c) = seriesCheck (name c)" by (rule conjunct1)
  from main have bb: "seriesCheck ''Breaking Bad S02 E05'' = (Some ''Breaking Bad'', Some 2, Some 5)"
    and inc: "seriesCheck ''Inception (2010)'' = (None, None, None)" by simp_all
  from bspec[OF all m0] have f0: "(seriesName (parseM3U playlist3 ! 0), season (parseM3U playlist3 ! 0),
       episode (parseM3U playlist3 ! 0)) = (Some ''Breaking Bad'', Some 2, Some 5)"
    unfolding n0 bb .
  from bspec[OF all m1] have f1: "(seriesName (parseM3U playlist3 ! 1), season (parseM3U playlist3 ! 1),
       episode (parseM3U playlist3 ! 1)) = (None, None, None)"
    unfolding n1 inc .
  have a1: "seriesPattern ''Show S1E123 S2E5'' ''Show'' ''1'' ''12'' ''3 S2E5''"
    unfolding seriesPattern_def
    by (intro exI[of _ "'' ''"] exI[of _ "CHR ''S''"] exI[of _ "[]"] exI[of _ "CHR ''E''"])
       (simp add: isWhiteSpace_def isDigit_def isLineTerminator_def)
  have a2: "seriesPattern ''Show S1E123 S2E5'' ''Show S1E123'' ''2'' ''5'' []"
    unfolding seriesPattern_def
    by (intro exI[of _ "'' ''"] exI[of _ "CHR ''S''"] exI[of _ "[]"] exI[of _ "CHR ''E''"])
       (simp add: isWhiteSpace_def isDigit_def isLineTerminator_def)
  have "seriesPattern ''Show S1E123 S2E5'' ''Show'' ''1'' ''123'' '' S2E5''"
    unfolding seriesPattern_def
    by (intro exI[of _ "'' ''"] exI[of _ "CHR ''S''"] exI[of _ "[]"] exI[of _ "CHR ''E''"])
       (simp add: isWhiteSpace_def isDigit_def isLineTerminator_def)
  moreover have "takeWhile isDigit '' S2E5'' = []" by (simp add: isDigit_def)
  moreover have "list_all (\<lambda>c. \<not> isWhiteSpace c) ''Show''" by (simp add: isWhiteSpace_def)
  ultimately have fp: "firstSeriesPattern ''Show S1E123 S2E5'' ''Show'' ''1'' ''123'' '' S2E5''"
    by (rule firstSeriesPatternI)
  have s1: "safeInteger (decimal ''1'')" and s2: "safeInteger (decimal ''123'')"
    by (simp_all add: safeInteger_def decimal_def digitValue_def)
  obtain sn se ep where sc: "seriesCheck ''Show S1E123 S2E5'' = (sn, se, ep)"
    by (cases "seriesCheck ''Show S1E123 S2E5''")
  from main[THEN conjunct2, THEN conjunct2, THEN conjunct2, THEN conjunct2, THEN conjunct1,
            rule_format, OF conjI[OF fp sc]]
  have r: "sn = Some (trim ''Show'')" "safeInteger (decimal ''1'') \<longrightarrow> se = Some (decimal ''1'')"
    "safeInteger (decimal ''123'') \<longrightarrow> ep = Some (decimal ''123'')" by simp_all
  from r(2) s1 have "se = Some 1" by (simp add: decimal_def digitValue_def)
  moreover from r(3) s2 have "ep = Some 123" by (simp add: decimal_def digitValue_def)
  moreover from r(1) have "sn = Some ''Show''" by (simp add: trim_def isWhiteSpace_def)
  ultimately have v: "seriesCheck ''Show S1E123 S2E5'' = (Some ''Show'', Some 1, Some 123)"
    using sc by simp
  from a2 have "\<exists>t sd ed rest. seriesPattern ''Show S1E123 S2E5'' t sd ed rest" by blast
  from main[THEN conjunct2, THEN conjunct2, THEN conjunct1, rule_format, OF this]
  obtain t sd ed rest where g: "firstSeriesPattern ''Show S1E123 S2E5'' t sd ed rest" by blast
  from main[THEN conjunct2, THEN conjunct2, THEN conjunct2, THEN conjunct1, rule_format,
            OF conjI[OF g fp]]
  have "t = ''Show'' \<and> sd = ''1'' \<and> ed = ''123'' \<and> rest = '' S2E5''" .
  with g have x: "\<exists>t sd ed rest. firstSeriesPattern ''Show S1E123 S2E5'' t sd ed rest
          \<and> t = ''Show'' \<and> sd = ''1'' \<and> ed = ''123'' \<and> rest = '' S2E5''" by blast
  from m0 n0 f0 m1 n1 f1 a1 a2 fp s1 s2 v x show ?thesis by (intro conjI)
qed
section \<open>Entries of the parser\<close>

text \<open>
  Claim C9. Every entry in the output of the parser has a non-empty playback URL: a blank
  line is skipped before it can make an entry.
\<close>

theorem playbackUrl_nonempty: "\<forall>c \<in> set (parseM3U content). url c \<noteq> []"
proof
  fix c
  assume "c \<in> set (parseM3U content)"
  then have "url c \<in> set (map url (parseM3U content))" by simp
  then have "url c \<in> trim ` {l. isPlaybackLine l}"
    unfolding parseM3U_def urls_parseLines by (auto simp: initialState_def)
  then show "url c \<noteq> []" by (auto simp: isPlaybackLine_def)
qed

theorem playbackUrl_nonempty_witness:
  "parseM3U playlist1 ! 1 \<in> set (parseM3U playlist1) \<and> url (parseM3U playlist1 ! 1) \<noteq> []"
proof -
  have h: "parseM3U playlist1 ! 1 \<in> set (parseM3U playlist1)" by code_simp
  with playbackUrl_nonempty[of playlist1] show ?thesis by blast
qed

lemma nth_after_prefix: "ys = xs @ [d] @ ext \<Longrightarrow> ys ! length xs = d \<and> length xs < length ys"
  by simp

text \<open>
  Claim C3. Every line that is neither blank nor a comment makes exactly one entry, in
  order, whose URL is the trimmed line; making an entry resets the pending fields to their
  defaults; and a playback line that comes first, or after another playback line with no
  metadata line between them, makes the entry of defaults: name \<open>Unknown Channel\<close>, group
  \<open>Uncategorized\<close>, no logo, and the id \<open>ch-\<close> followed by its index. So a metadata line
  reaches the next entry only.
\<close>

theorem playback_line_one_entry:
  "map url (parseM3U content) = map trim (filter isPlaybackLine (split (CHR 0x0A) content))
   \<and> (\<forall>st raw. isPlaybackLine raw \<longrightarrow>
         channels (parseLine st raw) = channels st @ [makeChannel st (trim raw)]
         \<and> pendingDefault (parseLine st raw))
   \<and> (\<forall>pre gap v rest.
         split (CHR 0x0A) content = pre @ gap @ [v] @ rest
         \<and> (pre = [] \<or> isPlaybackLine (last pre))
         \<and> (\<forall>g \<in> set gap. \<not> isPlaybackLine g \<and> \<not> isMetadataLine g)
         \<and> isPlaybackLine v
         \<longrightarrow> length (filter isPlaybackLine pre) < length (parseM3U content)
           \<and> parseM3U content ! length (filter isPlaybackLine pre) =
               \<lparr>id_c = ''ch-'' @ showNat (length (filter isPlaybackLine pre)),
                name = ''Unknown Channel'', logo = [], group_c = ''Uncategorized'',
                url = trim v, seriesName = None, season = None, episode = None\<rparr>)"
proof (intro conjI allI impI)
  show "map url (parseM3U content) = map trim (filter isPlaybackLine (split (CHR 0x0A) content))"
    by (simp add: parseM3U_def urls_parseLines initialState_def)
next
  fix st raw
  assume "isPlaybackLine raw"
  then show "channels (parseLine st raw) = channels st @ [makeChannel st (trim raw)]"
    and "pendingDefault (parseLine st raw)"
    by (simp_all add: parseLine_playback)
next
  fix pre gap v rest
  assume a: "split (CHR 0x0A) content = pre @ gap @ [v] @ rest
         \<and> (pre = [] \<or> isPlaybackLine (last pre))
         \<and> (\<forall>g \<in> set gap. \<not> isPlaybackLine g \<and> \<not> isMetadataLine g)
         \<and> isPlaybackLine v"
  define st1 where "st1 = parseLines initialState pre"
  define n where "n = length (filter isPlaybackLine pre)"
  define d where "d = \<lparr>id_c = ''ch-'' @ showNat n,
                name = ''Unknown Channel'', logo = [], group_c = ''Uncategorized'',
                url = trim v, seriesName = None, season = None, episode = None\<rparr>"
  have pd: "pendingDefault st1"
  proof (cases "pre = []")
    case True
    then show ?thesis by (simp add: st1_def pending_initial)
  next
    case False
    with a have "isPlaybackLine (last pre)" by blast
    with False show ?thesis unfolding st1_def by (rule pending_after_playback)
  qed
  have len: "length (channels st1) = n"
    by (simp add: st1_def n_def length_channels_parseLines initialState_def)
  have gap: "parseLines st1 gap = st1"
    using a by (simp add: parseLines_gap)
  have "channels (parseLine st1 v) = channels st1 @ [d]"
    using a pd len by (simp add: parseLine_playback makeChannel_default d_def)
  moreover obtain ext where
    "channels (parseLines (parseLine st1 v) rest) = channels (parseLine st1 v) @ ext"
    using channels_prefix_parseLines by blast
  moreover have "parseM3U content = channels (parseLines (parseLine st1 v) rest)"
    using a gap by (simp add: parseM3U_def parseLines_append st1_def)
  ultimately have "parseM3U content = channels st1 @ [d] @ ext" by simp
  from nth_after_prefix[OF this] len
  show "length (filter isPlaybackLine pre) < length (parseM3U content)"
    and "parseM3U content ! length (filter isPlaybackLine pre) =
               \<lparr>id_c = ''ch-'' @ showNat (length (filter isPlaybackLine pre)),
                name = ''Unknown Channel'', logo = [], group_c = ''Uncategorized'',
                url = trim v, seriesName = None, season = None, episode = None\<rparr>"
    by (simp_all add: n_def d_def)
qed


theorem playback_line_one_entry_witness:
  "isPlaybackLine ''http://h/1.ts''
   \<and> channels (parseLine initialState ''http://h/1.ts'')
       = channels initialState @ [makeChannel initialState (trim ''http://h/1.ts'')]
   \<and> pendingDefault (parseLine initialState ''http://h/1.ts'')
   \<and> split (CHR 0x0A) playlist2
       = [''#EXTINF:-1 tvg-id='' @ [CHR 0x22] @ ''n1'' @ [CHR 0x22] @ '' group-title=''
            @ [CHR 0x22] @ ''News'' @ [CHR 0x22] @ '',News One'', ''http://h/1.ts'']
         @ [[], ''#comment''] @ [''http://h/2.ts''] @ []
   \<and> parseM3U playlist2 ! 1 =
         \<lparr>id_c = ''ch-1'', name = ''Unknown Channel'', logo = [], group_c = ''Uncategorized'',
          url = ''http://h/2.ts'', seriesName = None, season = None, episode = None\<rparr>
   \<and> map url (parseM3U playlist2) = [''http://h/1.ts'', ''http://h/2.ts'']"
proof -
  let ?pre = "[''#EXTINF:-1 tvg-id='' @ [CHR 0x22] @ ''n1'' @ [CHR 0x22] @ '' group-title=''
            @ [CHR 0x22] @ ''News'' @ [CHR 0x22] @ '',News One'', ''http://h/1.ts'']"
  let ?gap = "[[], ''#comment'']"
  let ?v = "''http://h/2.ts''"
  have p: "isPlaybackLine ''http://h/1.ts''" by code_simp
  have s: "split (CHR 0x0A) playlist2 = ?pre @ ?gap @ [?v] @ []" by code_simp
  have l: "?pre = [] \<or> isPlaybackLine (last ?pre)" by code_simp
  have g: "\<forall>g \<in> set ?gap. \<not> isPlaybackLine g \<and> \<not> isMetadataLine g" by code_simp
  have v: "isPlaybackLine ?v" by code_simp
  have n: "length (filter isPlaybackLine ?pre) = 1" by code_simp
  have t: "trim ?v = ?v" by code_simp
  have sh: "showNat 1 = ''1''" by code_simp
  have u: "map trim (filter isPlaybackLine (?pre @ ?gap @ [?v] @ [])) = [''http://h/1.ts'', ''http://h/2.ts'']"
    by code_simp
  note main = playback_line_one_entry[of playlist2]
  from main p have c2: "channels (parseLine initialState ''http://h/1.ts'')
       = channels initialState @ [makeChannel initialState (trim ''http://h/1.ts'')]
     \<and> pendingDefault (parseLine initialState ''http://h/1.ts'')" by blast
  from main s l g v have c3: "parseM3U playlist2 ! length (filter isPlaybackLine ?pre) =
               \<lparr>id_c = ''ch-'' @ showNat (length (filter isPlaybackLine ?pre)),
                name = ''Unknown Channel'', logo = [], group_c = ''Uncategorized'',
                url = trim ?v, seriesName = None, season = None, episode = None\<rparr>"
    by blast
  from main s u have c1: "map url (parseM3U playlist2) = [''http://h/1.ts'', ''http://h/2.ts'']"
    by simp
  from c3 have c3': "parseM3U playlist2 ! 1 =
         \<lparr>id_c = ''ch-1'', name = ''Unknown Channel'', logo = [], group_c = ''Uncategorized'',
          url = ''http://h/2.ts'', seriesName = None, season = None, episode = None\<rparr>"
    unfolding n t sh by simp
  show ?thesis using p s c1 c2 c3' by blast
qed

section \<open>The series of the catalog\<close>

lemma compareEpisodes_le: "compareEpisodes a b \<le> 0 \<longleftrightarrow> episodeKey a \<le> episodeKey b"
  by (auto simp: compareEpisodes_def episodeKey_def Let_def less_eq_prod_def)

lemma episodeLe_key: "episodeLe a b \<longleftrightarrow> episodeKey a \<le> episodeKey b"
  by (auto simp: episodeLe_def episodeKey_def less_eq_prod_def)

lemma insertBy_insort: "insertBy compareEpisodes x ys = insort_key episodeKey x ys"
  by (induction ys) (simp_all add: compareEpisodes_le)

lemma sortBy_sort_key: "sortBy compareEpisodes xs = sort_key episodeKey xs"
proof (induction xs)
  case Nil
  show ?case by simp
next
  case (Cons a xs)
  have "sortBy compareEpisodes (a # xs) = insertBy compareEpisodes a (sortBy compareEpisodes xs)"
    by simp
  also have "\<dots> = insort_key episodeKey a (sort_key episodeKey xs)"
    unfolding Cons.IH by (rule insertBy_insort)
  finally show ?case by simp
qed

lemma sorted_wrt_episodeLe: "sorted_wrt episodeLe xs \<longleftrightarrow> sorted (map episodeKey xs)"
  by (induction xs) (auto simp: episodeLe_key)

lemma sortBy_sorted: "sorted_wrt episodeLe (sortBy compareEpisodes xs)"
  by (simp add: sorted_wrt_episodeLe sortBy_sort_key)

lemma sortBy_mset: "mset (sortBy compareEpisodes xs) = mset xs"
  by (simp add: sortBy_sort_key)

lemma episodesOf_empty: "(\<forall>c\<in>set xs. seriesName c \<noteq> Some n) \<Longrightarrow> episodesOf n xs = []"
  by (induction xs) (auto simp: episodesOf_def)

lemma episodesOf_snoc:
  "episodesOf n (xs @ [c]) = (if seriesName c = Some n then episodesOf n xs @ [c] else episodesOf n xs)"
  by (simp add: episodesOf_def)

lemma groupInvI:
  assumes "distinct (map fst m)"
    and "\<And>n s. map_of m n = Some s \<Longrightarrow> name_s s = n \<and> episodes s = episodesOf n xs"
    and "\<And>n. map_of m n \<noteq> None \<longleftrightarrow> n \<noteq> [] \<and> (\<exists>c\<in>set xs. seriesName c = Some n)"
  shows "groupInv m xs"
  using assms unfolding groupInv_def by blast

lemma groupInv_distinct: "groupInv m xs \<Longrightarrow> distinct (map fst m)"
  by (simp add: groupInv_def)

lemma groupInv_Some:
  "groupInv m xs \<Longrightarrow> map_of m n = Some s \<Longrightarrow> name_s s = n \<and> episodes s = episodesOf n xs"
  unfolding groupInv_def by blast

lemma groupInv_dom:
  "groupInv m xs \<Longrightarrow> map_of m n \<noteq> None \<longleftrightarrow> n \<noteq> [] \<and> (\<exists>c\<in>set xs. seriesName c = Some n)"
  unfolding groupInv_def by blast

lemma groupStep_inv:
  assumes inv: "groupInv m xs"
  shows "groupInv (fst (groupStep (m, st) c)) (xs @ [c])"
proof (cases "truthy (seriesName c)")
  case False
  then have gs: "fst (groupStep (m, st) c) = m" by (simp add: groupStep_def)
  from False have nc: "\<And>n. n \<noteq> [] \<Longrightarrow> seriesName c \<noteq> Some n"
    by (auto simp: truthy_def)
  show ?thesis unfolding gs
  proof (rule groupInvI)
    show "distinct (map fst m)" using inv by (rule groupInv_distinct)
  next
    fix n s assume a: "map_of m n = Some s"
    then have "n \<noteq> []" using groupInv_dom[OF inv, of n] by simp
    then have "episodesOf n (xs @ [c]) = episodesOf n xs" using nc by (simp add: episodesOf_snoc)
    with groupInv_Some[OF inv a] show "name_s s = n \<and> episodes s = episodesOf n (xs @ [c])"
      by simp
  next
    fix n
    show "map_of m n \<noteq> None \<longleftrightarrow> n \<noteq> [] \<and> (\<exists>c\<in>set (xs @ [c]). seriesName c = Some n)"
      using groupInv_dom[OF inv, of n] nc[of n] by auto
  qed
next
  case True
  then obtain n where n: "seriesName c = Some n" "n \<noteq> []"
    by (auto simp: truthy_def split: option.splits)
  define s' where "s' = (case map_of m n of None \<Rightarrow> pushEpisode c (newSeries n c)
                         | Some s \<Rightarrow> pushEpisode c s)"
  have gs: "fst (groupStep (m, st) c) = AList.update n s' m"
    using True n by (simp add: groupStep_def s'_def split: option.splits)
  have s': "name_s s' = n \<and> episodes s' = episodesOf n (xs @ [c])"
  proof (cases "map_of m n")
    case None
    with groupInv_dom[OF inv, of n] n have "\<forall>c'\<in>set xs. seriesName c' \<noteq> Some n" by simp
    then have "episodesOf n xs = []" by (rule episodesOf_empty)
    with None n show ?thesis
      by (simp add: s'_def pushEpisode_def newSeries_def episodesOf_snoc)
  next
    case (Some s)
    with groupInv_Some[OF inv Some] n show ?thesis
      by (simp add: s'_def pushEpisode_def episodesOf_snoc)
  qed
  show ?thesis unfolding gs
  proof (rule groupInvI)
    show "distinct (map fst (AList.update n s' m))"
      using groupInv_distinct[OF inv] by (rule distinct_update)
  next
    fix k s assume a: "map_of (AList.update n s' m) k = Some s"
    show "name_s s = k \<and> episodes s = episodesOf k (xs @ [c])"
    proof (cases "k = n")
      case True
      with a have "s = s'" by (simp add: update_conv')
      with s' True show ?thesis by simp
    next
      case False
      with a have "map_of m k = Some s" by (simp add: update_conv')
      from groupInv_Some[OF inv this] False n show ?thesis by (simp add: episodesOf_snoc)
    qed
  next
    fix k
    show "map_of (AList.update n s' m) k \<noteq> None
          \<longleftrightarrow> k \<noteq> [] \<and> (\<exists>c\<in>set (xs @ [c]). seriesName c = Some k)"
    proof (cases "k = n")
      case True
      with n show ?thesis by (simp add: update_conv')
    next
      case False
      then have "map_of (AList.update n s' m) k = map_of m k" by (simp add: update_conv')
      with groupInv_dom[OF inv, of k] False n show ?thesis by auto
    qed
  qed
qed

lemma groupStep_fold_inv:
  "groupInv m xs \<Longrightarrow> groupInv (fst (foldl groupStep (m, st) cs)) (xs @ cs)"
proof (induction cs arbitrary: m st xs)
  case Nil
  then show ?case by simp
next
  case (Cons c cs)
  obtain m' st' where g: "groupStep (m, st) c = (m', st')" by (cases "groupStep (m, st) c")
  with groupStep_inv[OF Cons.prems, of st c] have "groupInv m' (xs @ [c])" by simp
  from Cons.IH[OF this, of st'] g show ?case by simp
qed

lemma groupInv_empty: "groupInv [] []"
  by (simp add: groupInv_def)

lemma groupedSeries_series:
  "isSeriesView fc \<Longrightarrow>
   \<exists>m. groupInv m fc \<and> groupedSeries fc = map (finishSeries \<circ> snd) m"
proof -
  assume a: "isSeriesView fc"
  obtain m st where f: "foldl groupStep ([], []) fc = (m, st)"
    by (cases "foldl groupStep ([], []) fc")
  from groupStep_fold_inv[OF groupInv_empty, of "[]" fc] f have "groupInv m fc" by simp
  moreover from a f have "groupedSeries fc = map (finishSeries \<circ> snd) m"
    by (auto simp: isSeriesView_def groupedSeries_def seriesView_def Let_def split: if_splits)
  ultimately show ?thesis by blast
qed

lemma groupedSeries_flat: "\<not> isSeriesView fc \<Longrightarrow> groupedSeries fc = []"
  by (auto simp: isSeriesView_def groupedSeries_def seriesView_def Let_def split: if_splits prod.splits)

lemma finishSeries_fields [simp]:
  "name_s (finishSeries s) = name_s s"
  "episodes (finishSeries s) = sortBy compareEpisodes (episodes s)"
  by (simp_all add: finishSeries_def Let_def)

lemma groupedSeries_member:
  assumes "s \<in> set (groupedSeries fc)"
  shows "isSeriesView fc \<and> name_s s \<noteq> [] \<and> (\<exists>c\<in>set fc. seriesName c = Some (name_s s))
         \<and> episodes s = sortBy compareEpisodes (episodesOf (name_s s) fc)"
proof -
  from assms have v: "isSeriesView fc" using groupedSeries_flat by fastforce
  then obtain m where m: "groupInv m fc" "groupedSeries fc = map (finishSeries \<circ> snd) m"
    using groupedSeries_series by blast
  with assms obtain n s0 where s0: "(n, s0) \<in> set m" "s = finishSeries s0" by auto
  with m have ms: "map_of m n = Some s0" by (simp add: groupInv_def)
  from groupInv_Some[OF m(1) ms] have f: "name_s s0 = n" "episodes s0 = episodesOf n fc"
    by simp_all
  from groupInv_dom[OF m(1), of n] ms have "n \<noteq> []" "\<exists>c\<in>set fc. seriesName c = Some n"
    by simp_all
  with f s0 v show ?thesis by simp
qed

lemma groupedSeries_has:
  assumes "isSeriesView fc" "n \<noteq> []" "c \<in> set fc" "seriesName c = Some n"
  shows "\<exists>s\<in>set (groupedSeries fc). name_s s = n \<and> episodes s = sortBy compareEpisodes (episodesOf n fc)"
proof -
  obtain m where m: "groupInv m fc" "groupedSeries fc = map (finishSeries \<circ> snd) m"
    using groupedSeries_series assms(1) by blast
  from groupInv_dom[OF m(1), of n] assms obtain s0 where s0: "map_of m n = Some s0"
    by auto
  from groupInv_Some[OF m(1) s0] have f: "name_s s0 = n" "episodes s0 = episodesOf n fc"
    by simp_all
  from s0 have "(n, s0) \<in> set m" by (rule map_of_SomeD)
  then have "finishSeries s0 \<in> set (groupedSeries fc)" unfolding m(2) by force
  with f show ?thesis by (intro bexI[of _ "finishSeries s0"]) simp_all
qed

lemma isSeriesView_iff:
  "isSeriesView fc \<longleftrightarrow> 2 * length (filter (\<lambda>c. truthy (seriesName c)) fc) > length fc"
proof -
  let ?k = "length (filter (\<lambda>c. truthy (seriesName c)) fc)"
  let ?n = "length fc"
  have "isSeriesView fc \<longleftrightarrow> (?k > 0 \<and> real ?k / real ?n > 0.5)"
    by (simp add: isSeriesView_def seriesView_def Let_def split: prod.splits)
  also have "\<dots> \<longleftrightarrow> 2 * ?k > ?n"
  proof (cases "?n = 0")
    case True
    then show ?thesis by simp
  next
    case False
    then have "real ?k / real ?n > 0.5 \<longleftrightarrow> real ?n < 2 * real ?k"
      by (simp add: field_simps)
    also have "\<dots> \<longleftrightarrow> ?n < 2 * ?k"
      by (metis of_nat_less_iff of_nat_mult of_nat_numeral)
    finally show ?thesis by auto
  qed
  finally show ?thesis .
qed

lemma isSeriesView_mset: "mset fc' = mset fc \<Longrightarrow> isSeriesView fc' = isSeriesView fc"
proof -
  assume a: "mset fc' = mset fc"
  then have "length fc' = length fc" by (metis size_mset)
  moreover from a have "mset (filter (\<lambda>c. truthy (seriesName c)) fc') = mset (filter (\<lambda>c. truthy (seriesName c)) fc)"
    by simp
  then have "length (filter (\<lambda>c. truthy (seriesName c)) fc') = length (filter (\<lambda>c. truthy (seriesName c)) fc)"
    by (metis size_mset)
  ultimately show ?thesis
    by (simp add: isSeriesView_iff)
qed

text \<open>
  The claim C5 as it is stated, with the episodes list the same under every permutation of
  the input, fails on two entries of one series with the same season and episode and
  different URLs: the sort is stable and compares season and episode only, so the two stay
  in the order of the input.
\<close>

theorem episodes_order_counterexample:
  "parseM3U playlist6 = [dupA, dupB]
   \<and> mset [dupB, dupA] = mset [dupA, dupB]
   \<and> map episodes (groupedSeries [dupA, dupB]) = [[dupA, dupB]]
   \<and> map episodes (groupedSeries [dupB, dupA]) = [[dupB, dupA]]
   \<and> [dupA, dupB] \<noteq> [dupB, dupA]"
proof (intro conjI)
  show "parseM3U playlist6 = [dupA, dupB]" by code_simp
  show "mset [dupB, dupA] = mset [dupA, dupB]" by simp
  show "map episodes (groupedSeries [dupA, dupB]) = [[dupA, dupB]]" by code_simp
  show "map episodes (groupedSeries [dupB, dupA]) = [[dupB, dupA]]" by code_simp
  show "[dupA, dupB] \<noteq> [dupB, dupA]" by code_simp
qed

lemma sort_key_perm_keys:
  "mset xs = mset ys \<Longrightarrow> map f (sort_key f xs) = map f (sort_key f ys)"
proof -
  assume a: "mset xs = mset ys"
  have "\<And>zs. map f (sort_key f zs) = sort (map f zs)"
  proof -
    fix zs
    show "map f (sort_key f zs) = sort (map f zs)"
      by (rule properties_for_sort[symmetric]) simp_all
  qed
  moreover have "sort (map f xs) = sort (map f ys)"
    by (rule properties_for_sort) (simp_all add: a)
  ultimately show ?thesis by simp
qed

lemma sortBy_stable:
  "filter (\<lambda>c. episodeKey c = k) (sortBy compareEpisodes xs) = filter (\<lambda>c. episodeKey c = k) xs"
  unfolding sortBy_sort_key by (rule sort_key_stable)

text \<open>
  Claim C5, amended. In every series of the catalog builder the episodes are ordered by
  (season, episode) ascending, an unset season or episode counting as 0; they are the
  entries of the input with the name of the series; and the entries with the same season
  and episode keep the order they have in the input. Under a permutation of the input the
  series of the same name has the same episodes as a multiset, in an order with the same
  sequence of (season, episode) pairs; the episodes list itself is the same whenever two
  entries of one series with the same season and episode are the same entry.
\<close>

theorem episodes_sorted:
  "(\<forall>s \<in> set (groupedSeries fc).
      sorted_wrt episodeLe (episodes s) \<and> mset (episodes s) = mset (episodesOf (name_s s) fc)
      \<and> (\<forall>k. filter (\<lambda>c. episodeKey c = k) (episodes s)
               = filter (\<lambda>c. episodeKey c = k) (episodesOf (name_s s) fc)))
   \<and> (mset fc' = mset fc \<longrightarrow>
        (\<forall>s \<in> set (groupedSeries fc). \<exists>s' \<in> set (groupedSeries fc').
            name_s s' = name_s s
            \<and> mset (episodes s') = mset (episodes s)
            \<and> map episodeKey (episodes s') = map episodeKey (episodes s)
            \<and> (sameKeyOnlyIfEqual fc \<longrightarrow> episodes s' = episodes s)))"
proof (intro conjI ballI impI allI)
  fix s assume "s \<in> set (groupedSeries fc)"
  from groupedSeries_member[OF this]
  show "sorted_wrt episodeLe (episodes s)" and "mset (episodes s) = mset (episodesOf (name_s s) fc)"
    and "\<And>k. filter (\<lambda>c. episodeKey c = k) (episodes s)
               = filter (\<lambda>c. episodeKey c = k) (episodesOf (name_s s) fc)"
    by (simp_all add: sortBy_sorted sortBy_mset sortBy_stable)
next
  fix s assume p: "mset fc' = mset fc" and s: "s \<in> set (groupedSeries fc)"
  let ?n = "name_s s"
  from groupedSeries_member[OF s] obtain c where
    m: "isSeriesView fc" "?n \<noteq> []" "c \<in> set fc" "seriesName c = Some ?n"
       "episodes s = sortBy compareEpisodes (episodesOf ?n fc)"
    by blast
  from p have "set fc' = set fc" by (rule mset_eq_setD)
  with m(3) isSeriesView_mset[OF p] m(1) have "isSeriesView fc'" "c \<in> set fc'" by simp_all
  from groupedSeries_has[OF this(1) m(2) this(2) m(4)] obtain s' where
    s': "s' \<in> set (groupedSeries fc')" "name_s s' = ?n"
        "episodes s' = sortBy compareEpisodes (episodesOf ?n fc')"
    by blast
  from p have e: "mset (episodesOf ?n fc') = mset (episodesOf ?n fc)"
    by (simp add: episodesOf_def)
  have 1: "mset (episodes s') = mset (episodes s)"
    using e by (simp add: s' m sortBy_mset)
  have 2: "map episodeKey (episodes s') = map episodeKey (episodes s)"
    unfolding s' m sortBy_sort_key using e by (rule sort_key_perm_keys)
  have 3: "episodes s' = episodes s" if u: "sameKeyOnlyIfEqual fc"
  proof -
    have "inj_on episodeKey (set (episodesOf ?n fc'))"
    proof (rule inj_onI)
      fix a b
      assume a: "a \<in> set (episodesOf ?n fc')" and b: "b \<in> set (episodesOf ?n fc')"
        and k: "episodeKey a = episodeKey b"
      from a b \<open>set fc' = set fc\<close> have i: "a \<in> set fc" "b \<in> set fc"
        and n: "seriesName a = Some ?n" "seriesName b = Some ?n"
        by (simp_all add: episodesOf_def)
      from n(1) m(2) have t: "truthy (seriesName a)" by (simp add: truthy_def)
      from k have "orZero (season a) = orZero (season b)" "orZero (episode a) = orZero (episode b)"
        by (simp_all add: episodeKey_def)
      with u i t n show "a = b" unfolding sameKeyOnlyIfEqual_def by metis
    qed
    with e show ?thesis
      unfolding s' m sortBy_sort_key by (rule sort_key_eq_sort_key)
  qed
  from s' 1 2 3
  show "\<exists>s' \<in> set (groupedSeries fc').
            name_s s' = name_s s
            \<and> mset (episodes s') = mset (episodes s)
            \<and> map episodeKey (episodes s') = map episodeKey (episodes s)
            \<and> (sameKeyOnlyIfEqual fc \<longrightarrow> episodes s' = episodes s)"
    by blast
qed

theorem episodes_sorted_witness:
  "hd (groupedSeries shuffleA) \<in> set (groupedSeries shuffleA)
   \<and> mset shuffleB = mset shuffleA
   \<and> sameKeyOnlyIfEqual shuffleA
   \<and> movieOf ''m1'' \<in> set shuffleA \<and> movieOf ''m2'' \<in> set shuffleA
   \<and> movieOf ''m1'' \<noteq> movieOf ''m2''
   \<and> sorted_wrt episodeLe (episodes (hd (groupedSeries shuffleA)))
   \<and> episodes (hd (groupedSeries shuffleB)) = episodes (hd (groupedSeries shuffleA))
   \<and> episodes (hd (groupedSeries shuffleA))
       = [episodeOf ''u1'' ''Show'' 1 1, episodeOf ''u2'' ''Show'' 1 2, episodeOf ''u3'' ''Show'' 2 1]
   \<and> hd (groupedSeries tiedEpisodes) \<in> set (groupedSeries tiedEpisodes)
   \<and> name_s (hd (groupedSeries tiedEpisodes)) = ''Show''
   \<and> filter (\<lambda>c. episodeKey c = (1, 1)) (episodes (hd (groupedSeries tiedEpisodes)))
       = [episodeOf ''b'' ''Show'' 1 1, episodeOf ''a'' ''Show'' 1 1]"
proof -
  let ?s = "hd (groupedSeries shuffleA)"
  let ?t = "hd (groupedSeries tiedEpisodes)"
  have a: "?s \<in> set (groupedSeries shuffleA)" by code_simp
  have p: "mset shuffleB = mset shuffleA" by (simp add: shuffleA_def shuffleB_def)
  have u: "sameKeyOnlyIfEqual shuffleA" by code_simp
  have mv: "movieOf ''m1'' \<in> set shuffleA" "movieOf ''m2'' \<in> set shuffleA"
    "movieOf ''m1'' \<noteq> movieOf ''m2''" by code_simp+
  have one: "set (groupedSeries shuffleB) = {hd (groupedSeries shuffleB)}" by code_simp
  have v: "episodes ?s
       = [episodeOf ''u1'' ''Show'' 1 1, episodeOf ''u2'' ''Show'' 1 2, episodeOf ''u3'' ''Show'' 2 1]"
    by code_simp
  have ta: "?t \<in> set (groupedSeries tiedEpisodes)" by code_simp
  have tn: "name_s ?t = ''Show''" by code_simp
  have tf: "filter (\<lambda>c. episodeKey c = (1, 1)) (episodesOf ''Show'' tiedEpisodes)
       = [episodeOf ''b'' ''Show'' 1 1, episodeOf ''a'' ''Show'' 1 1]" by code_simp
  note main = episodes_sorted[of shuffleA shuffleB]
  note tied = episodes_sorted[of tiedEpisodes tiedEpisodes, THEN conjunct1, THEN bspec, OF ta]
  from main a have s: "sorted_wrt episodeLe (episodes ?s)" by blast
  from main a p u obtain s' where "s' \<in> set (groupedSeries shuffleB)" "episodes s' = episodes ?s"
    by blast
  with one have e: "episodes (hd (groupedSeries shuffleB)) = episodes ?s" by auto
  from tied have "filter (\<lambda>c. episodeKey c = (1, 1)) (episodes ?t)
      = filter (\<lambda>c. episodeKey c = (1, 1)) (episodesOf (name_s ?t) tiedEpisodes)" by blast
  then have st: "filter (\<lambda>c. episodeKey c = (1, 1)) (episodes ?t)
       = [episodeOf ''b'' ''Show'' 1 1, episodeOf ''a'' ''Show'' 1 1]"
    unfolding tn tf .
  from a p u mv s e v ta tn st show ?thesis by (intro conjI)
qed
section \<open>The grouping mode\<close>

lemma dropWhile_snoc_keep: "\<not> P x \<Longrightarrow> \<exists>zs. dropWhile P (ys @ [x]) = zs @ [x]"
  by (induction ys) auto

lemma trim_keeps_hd:
  assumes "t \<noteq> []" "\<not> isWhiteSpace (hd t)"
  shows "trim t \<noteq> [] \<and> hd (trim t) = hd t"
proof -
  from assms obtain x t' where t: "t = x # t'" "\<not> isWhiteSpace x" by (cases t) auto
  then have "dropWhile isWhiteSpace t = t" by simp
  moreover from dropWhile_snoc_keep[of isWhiteSpace x "rev t'", OF t(2)] obtain zs where
    "dropWhile isWhiteSpace (rev t) = zs @ [x]" by (auto simp: t(1))
  ultimately have "trim t = x # rev zs" by (simp add: trim_def)
  with t show ?thesis by simp
qed

lemma trim_hd: "trim s = [] \<or> \<not> isWhiteSpace (hd (trim s))"
proof (cases "dropWhile isWhiteSpace s = []")
  case True
  have "trim s = []" unfolding trim_def True by simp
  then show ?thesis ..
next
  case False
  let ?u = "dropWhile isWhiteSpace s"
  from False have h: "\<not> isWhiteSpace (hd ?u)" by (rule hd_dropWhile)
  have "trim s = trim ?u" by (simp add: trim_def)
  with trim_keeps_hd[OF False h] h show ?thesis by simp
qed

lemma seriesName_makeChannel:
  assumes "nameTrimmed st"
  shows "seriesName (makeChannel st l) \<noteq> Some []"
proof (cases "matchAtStart seriesRegex (currentName st)")
  case None
  then show ?thesis by (simp add: makeChannel_def seriesCheck_def)
next
  case (Some m)
  let ?nm = "currentName st"
  from seriesCheck_Some[OF Some] obtain t sd ed rest where
    p: "seriesPattern ?nm t sd ed rest"
    and c: "seriesCheck ?nm = (Some (trim t), Some (decimal sd), Some (decimal ed))" by blast
  from p obtain w r where n: "?nm = t @ w @ r" "w \<noteq> []" "list_all isWhiteSpace w"
    unfolding seriesPattern_def by blast
  have "t \<noteq> []"
  proof
    assume "t = []"
    with n have "?nm \<noteq> []" "hd ?nm = hd w" by simp_all
    moreover from n(2,3) have "isWhiteSpace (hd w)" by (cases w) simp_all
    ultimately show False using assms by (simp add: nameTrimmed_def)
  qed
  moreover from this n(1) have "hd t = hd ?nm" "?nm \<noteq> []" by simp_all
  with assms have "\<not> isWhiteSpace (hd t)" by (simp add: nameTrimmed_def)
  ultimately have "trim t \<noteq> []" using trim_keeps_hd by blast
  with c show ?thesis by (simp add: makeChannel_def)
qed

lemma nameTrimmed_parseLine: "nameTrimmed st \<Longrightarrow> nameTrimmed (parseLine st raw)"
proof -
  assume a: "nameTrimmed st"
  have m: "nameTrimmed (metadataLine l st)" for l
    using trim_hd[of "last (split (CHR '','') l)"]
    by (simp add: metadataLine_def nameTrimmed_def Let_def)
  have p: "nameTrimmed (playbackLine l st)" for l
    by (simp add: playbackLine_def resetPending_def nameTrimmed_def)
  from a m p show ?thesis by (simp add: parseLine_def Let_def)
qed

lemma seriesName_parseLines:
  assumes "nameTrimmed st" "\<forall>c\<in>set (channels st). seriesName c \<noteq> Some []"
  shows "\<forall>c\<in>set (channels (parseLines st ls)). seriesName c \<noteq> Some []"
  using assms
proof (induction ls arbitrary: st)
  case Nil
  then show ?case by simp
next
  case (Cons l ls)
  have 1: "nameTrimmed (parseLine st l)" using Cons.prems(1) by (rule nameTrimmed_parseLine)
  have 2: "\<forall>c\<in>set (channels (parseLine st l)). seriesName c \<noteq> Some []"
    using Cons.prems seriesName_makeChannel by (auto simp: channels_parseLine)
  from Cons.IH[OF 1 2] show ?case by simp
qed

lemma seriesName_parseM3U: "c \<in> set (parseM3U content) \<Longrightarrow> seriesName c \<noteq> Some []"
proof -
  have "nameTrimmed initialState" "\<forall>c\<in>set (channels initialState). seriesName c \<noteq> Some []"
    by (simp_all add: nameTrimmed_def initialState_def)
  from seriesName_parseLines[OF this] show "c \<in> set (parseM3U content) \<Longrightarrow> seriesName c \<noteq> Some []"
    by (simp add: parseM3U_def)
qed

lemma set_filterChannels: "set (filterChannels chans cat q) \<subseteq> set chans"
  by (auto simp: filterChannels_def Let_def)

lemma seriesFraction_iff: "isSeriesView fc \<longleftrightarrow> seriesFraction fc > 1 / 2"
  by (simp add: isSeriesView_def seriesView_def Let_def seriesFraction_def split: prod.splits)

text \<open>
  Claim C2. The grouping mode of a filtered channel set is series exactly when the fraction
  of its entries that carry a series name is above one half: at 60 percent it is series, at
  50 percent or below (and on the empty set) it is flat. The source counts an entry when
  its \<open>seriesName\<close> is truthy, which on every entry of the parser is the same as being set.
\<close>

theorem grouping_mode:
  "(isSeriesView fc \<longleftrightarrow> seriesFraction fc > 1 / 2)
   \<and> (isSeriesView fc \<longleftrightarrow> length fc < 2 * length (filter (\<lambda>c. truthy (seriesName c)) fc))
   \<and> (seriesFraction fc = 6 / 10 \<longrightarrow> isSeriesView fc)
   \<and> (seriesFraction fc \<le> 1 / 2 \<longrightarrow> \<not> isSeriesView fc)
   \<and> (\<forall>c \<in> set (filterChannels (parseM3U content) cat q).
         truthy (seriesName c) \<longleftrightarrow> seriesName c \<noteq> None)"
proof (intro conjI)
  show "isSeriesView fc \<longleftrightarrow> seriesFraction fc > 1 / 2" by (rule seriesFraction_iff)
  show "isSeriesView fc \<longleftrightarrow> length fc < 2 * length (filter (\<lambda>c. truthy (seriesName c)) fc)"
    by (rule isSeriesView_iff)
  show "seriesFraction fc = 6 / 10 \<longrightarrow> isSeriesView fc" by (simp add: seriesFraction_iff)
  show "seriesFraction fc \<le> 1 / 2 \<longrightarrow> \<not> isSeriesView fc" by (simp add: seriesFraction_iff)
  show "\<forall>c \<in> set (filterChannels (parseM3U content) cat q).
         truthy (seriesName c) \<longleftrightarrow> seriesName c \<noteq> None"
  proof
    fix c assume "c \<in> set (filterChannels (parseM3U content) cat q)"
    with set_filterChannels have "c \<in> set (parseM3U content)" by blast
    from seriesName_parseM3U[OF this] show "truthy (seriesName c) \<longleftrightarrow> seriesName c \<noteq> None"
      by (cases "seriesName c") (simp_all add: truthy_def)
  qed
qed

theorem grouping_mode_witness:
  "seriesFraction sixtyPercent = 6 / 10 \<and> isSeriesView sixtyPercent
   \<and> seriesFraction fiftyPercent \<le> 1 / 2 \<and> \<not> isSeriesView fiftyPercent
   \<and> seriesFraction [] \<le> 1 / 2 \<and> \<not> isSeriesView []
   \<and> parseM3U playlist3 ! 0 \<in> set (filterChannels (parseM3U playlist3) ''Series'' [])
   \<and> truthy (seriesName (parseM3U playlist3 ! 0))
   \<and> seriesName (parseM3U playlist3 ! 0) \<noteq> None"
proof -
  have a: "seriesFraction sixtyPercent = 6 / 10"
    by (simp add: seriesFraction_def sixtyPercent_def episodeOf_def movieOf_def truthy_def)
  have b: "seriesFraction fiftyPercent \<le> 1 / 2"
    by (simp add: seriesFraction_def fiftyPercent_def episodeOf_def movieOf_def truthy_def)
  have c: "seriesFraction [] \<le> 1 / 2"
    by (simp add: seriesFraction_def)
  have m: "parseM3U playlist3 ! 0 \<in> set (filterChannels (parseM3U playlist3) ''Series'' [])"
    by code_simp
  have t: "truthy (seriesName (parseM3U playlist3 ! 0))" by code_simp
  note m1 = grouping_mode[of sixtyPercent playlist3 "''Series''" "[]"]
  note m2 = grouping_mode[of fiftyPercent playlist3 "''Series''" "[]"]
  note m3 = grouping_mode[of "[]" playlist3 "''Series''" "[]"]
  from m1[THEN conjunct2, THEN conjunct2, THEN conjunct1, rule_format, OF a]
  have 1: "isSeriesView sixtyPercent" .
  from m2[THEN conjunct2, THEN conjunct2, THEN conjunct2, THEN conjunct1, rule_format, OF b]
  have 2: "\<not> isSeriesView fiftyPercent" .
  from m3[THEN conjunct2, THEN conjunct2, THEN conjunct2, THEN conjunct1, rule_format, OF c]
  have 3: "\<not> isSeriesView []" .
  from m1[THEN conjunct2, THEN conjunct2, THEN conjunct2, THEN conjunct2, rule_format, OF m] t
  have 4: "seriesName (parseM3U playlist3 ! 0) \<noteq> None" by simp
  from a 1 b 2 c 3 m t 4 show ?thesis by (intro conjI)
qed

section \<open>The upstream request of the proxy\<close>

lemma map_of_impersonation_Range: "map_of (impersonation cfg) ''Range'' = None"
  by (simp add: impersonation_def)

lemma update_Range_impersonation:
  "AList.update ''Range'' r (impersonation cfg) = impersonation cfg @ [(''Range'', r)]"
  by (simp add: impersonation_def)

lemma proxyOptions_headers:
  "headers (proxyOptions cfg req) =
     (case req_headers req ''range'' of
        None \<Rightarrow> impersonation cfg
      | Some r \<Rightarrow> if r = [] then impersonation cfg else impersonation cfg @ [(''Range'', r)])"
  by (simp add: proxyOptions_def truthy_def Let_def update_Range_impersonation split: option.splits)

lemma impersonation_no_Range:
  "filter (\<lambda>kv. fst kv \<noteq> ''Range'') (impersonation cfg) = impersonation cfg"
  "''Range'' \<notin> fst ` set (impersonation cfg)"
  by (simp_all add: impersonation_def)

text \<open>
  The claim C6 as it is stated, with a Range header forwarded whenever it is present, fails
  on a request whose Range header is present with an empty value: the source tests
  \<open>req.headers.range\<close> for truthiness, and the empty string is falsy, so no Range header is
  sent upstream.
\<close>

theorem range_forwarding_counterexample:
  "req_headers emptyRangeRequest ''range'' = Some []
   \<and> map_of (headers (proxyOptions defaultConfig emptyRangeRequest)) ''Range'' = None"
proof
  show r: "req_headers emptyRangeRequest ''range'' = Some []"
    by (simp add: emptyRangeRequest_def)
  show "map_of (headers (proxyOptions defaultConfig emptyRangeRequest)) ''Range'' = None"
    unfolding proxyOptions_headers r by (simp add: map_of_impersonation_Range)
qed

text \<open>
  Claim C6, amended. The inbound Range header is forwarded verbatim, as the last upstream
  header, when it is present and not empty; when it is absent or empty no Range header is
  sent upstream. The other upstream headers are the fixed impersonation set, whatever the
  inbound headers are.
\<close>

theorem range_forwarding:
  "(\<forall>r. req_headers req ''range'' = Some r \<and> r \<noteq> [] \<longrightarrow>
        headers (proxyOptions cfg req) = impersonation cfg @ [(''Range'', r)]
        \<and> map_of (headers (proxyOptions cfg req)) ''Range'' = Some r)
   \<and> (req_headers req ''range'' = None \<or> req_headers req ''range'' = Some [] \<longrightarrow>
        headers (proxyOptions cfg req) = impersonation cfg
        \<and> ''Range'' \<notin> fst ` set (headers (proxyOptions cfg req)))
   \<and> filter (\<lambda>kv. fst kv \<noteq> ''Range'') (headers (proxyOptions cfg req)) = impersonation cfg"
proof (intro conjI allI impI)
  fix r assume a: "req_headers req ''range'' = Some r \<and> r \<noteq> []"
  then show h: "headers (proxyOptions cfg req) = impersonation cfg @ [(''Range'', r)]"
    by (simp add: proxyOptions_headers)
  show "map_of (headers (proxyOptions cfg req)) ''Range'' = Some r"
    unfolding h by (simp add: map_of_impersonation_Range map_add_def)
next
  assume a: "req_headers req ''range'' = None \<or> req_headers req ''range'' = Some []"
  then show h: "headers (proxyOptions cfg req) = impersonation cfg"
    by (auto simp: proxyOptions_headers)
  show "''Range'' \<notin> fst ` set (headers (proxyOptions cfg req))"
    unfolding h by (rule impersonation_no_Range)
next
  show "filter (\<lambda>kv. fst kv \<noteq> ''Range'') (headers (proxyOptions cfg req)) = impersonation cfg"
    by (simp add: proxyOptions_headers impersonation_no_Range split: option.splits)
qed

theorem range_forwarding_witness:
  "req_headers rangeRequest ''range'' = Some ''bytes=1000-''
   \<and> map_of (headers (proxyOptions defaultConfig rangeRequest)) ''Range'' = Some ''bytes=1000-''
   \<and> req_headers plainRequest ''range'' = None
   \<and> headers (proxyOptions defaultConfig plainRequest) = impersonation defaultConfig"
proof -
  have a: "req_headers rangeRequest ''range'' = Some ''bytes=1000-'' \<and> ''bytes=1000-'' \<noteq> []"
    by (simp add: rangeRequest_def)
  have n: "req_headers plainRequest ''range'' = None"
    by (simp add: plainRequest_def)
  then have b: "req_headers plainRequest ''range'' = None \<or> req_headers plainRequest ''range'' = Some []"
    by (rule disjI1)
  note m1 = range_forwarding[where req = rangeRequest and cfg = defaultConfig]
  note m2 = range_forwarding[where req = plainRequest and cfg = defaultConfig]
  from m1[THEN conjunct1, rule_format, OF a]
  have 2: "map_of (headers (proxyOptions defaultConfig rangeRequest)) ''Range'' = Some ''bytes=1000-''"
    by (rule conjunct2)
  from m2[THEN conjunct2, THEN conjunct1, rule_format, OF b]
  have 3: "headers (proxyOptions defaultConfig plainRequest) = impersonation defaultConfig"
    by (rule conjunct1)
  from a[THEN conjunct1] 2 n 3 show ?thesis by (intro conjI)
qed

section \<open>The response of the proxy\<close>

lemma forwardHeader_fields [simp]:
  "statusCode (forwardHeader res kv) = statusCode res"
  "headersSent (forwardHeader res kv) = headersSent res"
  "body (forwardHeader res kv) = body res"
  "chunks (forwardHeader res kv) = chunks res"
  "finished (forwardHeader res kv) = finished res"
  by (simp_all add: forwardHeader_def setHeader_def split: prod.splits)

lemma forwardHeader_headers:
  "res_headers (forwardHeader res (k, v)) =
     (if toLowerCase k = ''transfer-encoding'' then res_headers res
      else (res_headers res)(toLowerCase k \<mapsto> v))"
  by (simp add: forwardHeader_def setHeader_def)

lemma foldl_forwardHeader_other:
  "k \<notin> toLowerCase ` fst ` set hs \<Longrightarrow>
   res_headers (foldl forwardHeader res hs) k = res_headers res k"
proof (induction hs arbitrary: res)
  case Nil
  then show ?case by simp
next
  case (Cons kv hs)
  obtain k' v' where kv: "kv = (k', v')" by (cases kv)
  from Cons.prems have "k \<noteq> toLowerCase k'" "k \<notin> toLowerCase ` fst ` set hs"
    by (auto simp: kv)
  with Cons.IH[of "forwardHeader res kv"] show ?case
    by (simp add: kv forwardHeader_headers)
qed

lemma foldl_forwardHeader_te:
  "res_headers (foldl forwardHeader res hs) ''transfer-encoding''
     = res_headers res ''transfer-encoding''"
proof (induction hs arbitrary: res)
  case Nil
  then show ?case by simp
next
  case (Cons kv hs)
  obtain k' v' where kv: "kv = (k', v')" by (cases kv)
  show ?case unfolding foldl_Cons Cons.IH by (simp add: kv forwardHeader_headers)
qed

lemma foldl_forwardHeader_copied:
  assumes "distinct (map (\<lambda>kv. toLowerCase (fst kv)) hs)" "(k, v) \<in> set hs"
    "toLowerCase k \<noteq> ''transfer-encoding''"
  shows "res_headers (foldl forwardHeader res hs) (toLowerCase k) = Some v"
  using assms
proof (induction hs arbitrary: res)
  case Nil
  then show ?case by simp
next
  case (Cons kv hs)
  obtain k' v' where kv: "kv = (k', v')" by (cases kv)
  show ?case
  proof (cases "(k, v) = kv")
    case True
    with Cons.prems(1) have "toLowerCase k \<notin> toLowerCase ` fst ` set hs"
      by (auto simp: kv)
    then have "res_headers (foldl forwardHeader (forwardHeader res kv) hs) (toLowerCase k)
                = res_headers (forwardHeader res kv) (toLowerCase k)"
      by (rule foldl_forwardHeader_other)
    with True Cons.prems(3) show ?thesis by (simp add: kv forwardHeader_headers)
  next
    case False
    with Cons.prems have "(k, v) \<in> set hs" "distinct (map (\<lambda>kv. toLowerCase (fst kv)) hs)" by auto
    from Cons.IH[OF this(2) this(1) Cons.prems(3)] show ?thesis by simp
  qed
qed

lemma foldl_forwardHeader_status [simp]:
  "statusCode (foldl forwardHeader res hs) = statusCode res"
  by (induction hs arbitrary: res) simp_all

lemma nodeHeaders_distinct:
  assumes "nodeHeaders hs"
  shows "distinct (map (\<lambda>kv. toLowerCase (fst kv)) hs)"
proof -
  have "map (\<lambda>kv. toLowerCase (fst kv)) hs = map fst hs"
    using assms by (intro map_cong) (auto simp: nodeHeaders_def)
  moreover have "distinct (map fst hs)"
    using assms by (simp add: nodeHeaders_def)
  ultimately show ?thesis by (rule ssubst)
qed

lemma onProxyRes_headers:
  "res_headers (onProxyRes res proxyRes) =
     res_headers (foldl forwardHeader
       (setHeader ''Access-Control-Expose-Headers'' (Single ''Content-Length, Content-Range, Content-Type'')
         (setHeader ''Access-Control-Allow-Methods'' (Single ''GET, OPTIONS'')
           (setHeader ''Access-Control-Allow-Origin'' (Single ''*'') res)))
       (up_headers proxyRes))"
  by (simp add: onProxyRes_def Let_def)

lemma cors_lower:
  "toLowerCase ''Access-Control-Expose-Headers'' = ''access-control-expose-headers''"
  "toLowerCase ''Access-Control-Allow-Methods'' = ''access-control-allow-methods''"
  "toLowerCase ''Access-Control-Allow-Origin'' = ''access-control-allow-origin''"
  by code_simp+

text \<open>
  Claim C7. On an upstream response, whose header names Node delivers in lower case and
  without repetition, every upstream header but \<open>transfer-encoding\<close> is set unchanged on the
  client response; \<open>transfer-encoding\<close> of the client response is left as it was, so the
  upstream one is never forwarded; and the status code of the upstream is mirrored.
\<close>

theorem response_headers_forwarded:
  "(nodeHeaders (up_headers proxyRes) \<longrightarrow>
      (\<forall>(k, v) \<in> set (up_headers proxyRes). k \<noteq> ''transfer-encoding'' \<longrightarrow>
          res_headers (onProxyRes res proxyRes) k = Some v))
   \<and> res_headers (onProxyRes res proxyRes) ''transfer-encoding'' = res_headers res ''transfer-encoding''
   \<and> statusCode (onProxyRes res proxyRes) = up_statusCode proxyRes"
proof (intro conjI impI)
  assume n: "nodeHeaders (up_headers proxyRes)"
  show "\<forall>(k, v) \<in> set (up_headers proxyRes). k \<noteq> ''transfer-encoding'' \<longrightarrow>
          res_headers (onProxyRes res proxyRes) k = Some v"
  proof (clarify)
    fix k v assume kv: "(k, v) \<in> set (up_headers proxyRes)" and t: "k \<noteq> ''transfer-encoding''"
    from n kv have l: "toLowerCase k = k" by (force simp: nodeHeaders_def)
    from foldl_forwardHeader_copied[OF nodeHeaders_distinct[OF n] kv] t l
    show "res_headers (onProxyRes res proxyRes) k = Some v"
      unfolding onProxyRes_headers by simp
  qed
next
  show "res_headers (onProxyRes res proxyRes) ''transfer-encoding'' = res_headers res ''transfer-encoding''"
    unfolding onProxyRes_headers foldl_forwardHeader_te
    by (simp add: setHeader_def cors_lower)
next
  show "statusCode (onProxyRes res proxyRes) = up_statusCode proxyRes"
    by (simp add: onProxyRes_def Let_def)
qed

theorem response_headers_forwarded_witness:
  "nodeHeaders (up_headers partialContent)
   \<and> (''content-range'', Single ''bytes 1000-1999/2000'') \<in> set (up_headers partialContent)
   \<and> res_headers (onProxyRes freshResponse partialContent) ''content-range''
       = Some (Single ''bytes 1000-1999/2000'')
   \<and> res_headers (onProxyRes freshResponse partialContent) ''transfer-encoding'' = None
   \<and> statusCode (onProxyRes freshResponse partialContent) = 206"
proof -
  have n: "nodeHeaders (up_headers partialContent)" by code_simp
  have m: "(''content-range'', Single ''bytes 1000-1999/2000'') \<in> set (up_headers partialContent)"
    by (simp add: partialContent_def)
  have d: "''content-range'' \<noteq> ''transfer-encoding''" by simp
  have f: "res_headers freshResponse ''transfer-encoding'' = None"
    by (simp add: freshResponse_def)
  have s: "up_statusCode partialContent = 206" by (simp add: partialContent_def)
  note main = response_headers_forwarded[where res = freshResponse and proxyRes = partialContent]
  from main[THEN conjunct1, rule_format, OF n m] d
  have 1: "res_headers (onProxyRes freshResponse partialContent) ''content-range''
       = Some (Single ''bytes 1000-1999/2000'')" by simp
  from main[THEN conjunct2, THEN conjunct1] f
  have 2: "res_headers (onProxyRes freshResponse partialContent) ''transfer-encoding'' = None"
    by simp
  from main[THEN conjunct2, THEN conjunct2] s
  have 3: "statusCode (onProxyRes freshResponse partialContent) = 206" by simp
  from n m 1 2 3 show ?thesis by (intro conjI)
qed

lemma foldl_forwardHeader_fields [simp]:
  "headersSent (foldl forwardHeader res hs) = headersSent res"
  "finished (foldl forwardHeader res hs) = finished res"
  "chunks (foldl forwardHeader res hs) = chunks res"
  "body (foldl forwardHeader res hs) = body res"
  by (induction hs arbitrary: res) simp_all

lemma onProxyRes_fields [simp]:
  "headersSent (onProxyRes res proxyRes) = headersSent res"
  "finished (onProxyRes res proxyRes) = finished res"
  "chunks (onProxyRes res proxyRes) = chunks res"
  "body (onProxyRes res proxyRes) = body res"
  "statusCode (onProxyRes res proxyRes) = up_statusCode proxyRes"
  by (simp_all add: onProxyRes_def Let_def setHeader_def)

lemma runProxy_Nil [simp]: "runProxy res [] = res"
  by (simp add: runProxy_def)

lemma runProxy_Cons [simp]: "runProxy res (ev # evs) = runProxy (proxyEvent res ev) evs"
  by (simp add: runProxy_def)

lemma runProxy_append: "runProxy res (xs @ ys) = runProxy (runProxy res xs) ys"
  by (simp add: runProxy_def)

lemma runProxy_data:
  "statusCode (runProxy res (map UpstreamData cs)) = statusCode res"
  "finished (runProxy res (map UpstreamData cs)) = finished res"
  "body (runProxy res (map UpstreamData cs)) = body res"
  "chunks (runProxy res (map UpstreamData cs)) = chunks res @ cs"
  "headersSent (runProxy res (map UpstreamData cs)) = (headersSent res \<or> cs \<noteq> [])"
  by (induction cs arbitrary: res) (simp_all add: proxyEvent_def)

lemma onProxyError_sent: "headersSent res \<Longrightarrow> onProxyError res message = res"
  by (simp add: onProxyError_def)

lemma onProxyError_unsent:
  "\<not> headersSent res \<Longrightarrow>
   statusCode (onProxyError res message) = 502
   \<and> body (onProxyError res message)
       = Some (JsonObject [(''error'', ''Stream unavailable''), (''details'', message)])
   \<and> chunks (onProxyError res message) = chunks res
   \<and> headersSent (onProxyError res message) \<and> finished (onProxyError res message)"
  by (simp add: onProxyError_def sendJson_def setHeader_def Let_def)

text \<open>
  The claim C8 as it is stated, with the response terminated by an error that comes after
  bytes have started streaming, fails on an upstream response of which one chunk has been
  piped: the handler of the error does nothing once the headers are sent, and the pipe does
  not end the response when its source fails, so the response is left open.
\<close>

theorem error_while_streaming_counterexample:
  "headersSent (runProxy freshResponse [UpstreamResponse partialContent, UpstreamData ''chunk 1''])
   \<and> \<not> finished (runProxy freshResponse
         [UpstreamResponse partialContent, UpstreamData ''chunk 1'', UpstreamError ''read ECONNRESET''])"
  by (simp add: proxyEvent_def onProxyError_def freshResponse_def)

text \<open>
  Claim C8, amended. An upstream error before the headers of the response are sent, that is
  before any byte went to the client, gives status 502 with the JSON payload
  \<open>{error: 'Stream unavailable', details: <message>}\<close> and ends the response, also when the
  upstream had answered and no chunk had been piped yet. An error once bytes are streaming
  leaves the response as it is: the status stays the one of the upstream, no payload is
  written after the chunks already sent, and the response is not ended by the proxy.
\<close>

theorem upstream_error:
  "(\<not> headersSent res \<longrightarrow>
      statusCode (onProxyError res message) = 502
      \<and> body (onProxyError res message)
          = Some (JsonObject [(''error'', ''Stream unavailable''), (''details'', message)])
      \<and> headersSent (onProxyError res message) \<and> finished (onProxyError res message))
   \<and> (headersSent res \<longrightarrow> onProxyError res message = res)
   \<and> (\<not> headersSent res \<longrightarrow>
        statusCode (runProxy res [UpstreamResponse proxyRes, UpstreamError message]) = 502
        \<and> body (runProxy res [UpstreamResponse proxyRes, UpstreamError message])
            = Some (JsonObject [(''error'', ''Stream unavailable''), (''details'', message)])
        \<and> finished (runProxy res [UpstreamResponse proxyRes, UpstreamError message]))
   \<and> runProxy res (UpstreamResponse proxyRes # map UpstreamData (c # cs) @ [UpstreamError message])
       = runProxy res (UpstreamResponse proxyRes # map UpstreamData (c # cs))
   \<and> statusCode (runProxy res
         (UpstreamResponse proxyRes # map UpstreamData (c # cs) @ [UpstreamError message]))
       = up_statusCode proxyRes
   \<and> chunks (runProxy res
         (UpstreamResponse proxyRes # map UpstreamData (c # cs) @ [UpstreamError message]))
       = chunks res @ c # cs
   \<and> body (runProxy res
         (UpstreamResponse proxyRes # map UpstreamData (c # cs) @ [UpstreamError message]))
       = body res
   \<and> finished (runProxy res
         (UpstreamResponse proxyRes # map UpstreamData (c # cs) @ [UpstreamError message]))
       = finished res"
proof -
  let ?r0 = "onProxyRes res proxyRes"
  let ?r1 = "runProxy ?r0 (map UpstreamData (c # cs))"
  have sent: "headersSent ?r1" unfolding runProxy_data by simp
  have run: "runProxy res (UpstreamResponse proxyRes # map UpstreamData (c # cs) @ [UpstreamError message])
               = onProxyError ?r1 message"
    unfolding runProxy_Cons runProxy_append by (simp add: proxyEvent_def)
  have same: "onProxyError ?r1 message = ?r1" using sent by (rule onProxyError_sent)
  have r1: "runProxy res (UpstreamResponse proxyRes # map UpstreamData (c # cs)) = ?r1"
    unfolding runProxy_Cons by (simp add: proxyEvent_def)
  have 1: "\<not> headersSent res \<longrightarrow>
      statusCode (onProxyError res message) = 502
      \<and> body (onProxyError res message)
          = Some (JsonObject [(''error'', ''Stream unavailable''), (''details'', message)])
      \<and> headersSent (onProxyError res message) \<and> finished (onProxyError res message)"
    using onProxyError_unsent[of res message] by simp
  have 2: "headersSent res \<longrightarrow> onProxyError res message = res"
    by (simp add: onProxyError_sent)
  have 3: "\<not> headersSent res \<longrightarrow>
        statusCode (runProxy res [UpstreamResponse proxyRes, UpstreamError message]) = 502
        \<and> body (runProxy res [UpstreamResponse proxyRes, UpstreamError message])
            = Some (JsonObject [(''error'', ''Stream unavailable''), (''details'', message)])
        \<and> finished (runProxy res [UpstreamResponse proxyRes, UpstreamError message])"
    using onProxyError_unsent[of ?r0 message] by (simp add: proxyEvent_def)
  have 4: "runProxy res (UpstreamResponse proxyRes # map UpstreamData (c # cs) @ [UpstreamError message])
       = runProxy res (UpstreamResponse proxyRes # map UpstreamData (c # cs))"
    unfolding run same r1 ..
  have 5: "statusCode ?r1 = up_statusCode proxyRes" unfolding runProxy_data by simp
  have 6: "chunks ?r1 = chunks res @ c # cs" unfolding runProxy_data by simp
  have 7: "body ?r1 = body res" unfolding runProxy_data by simp
  have 8: "finished ?r1 = finished res" unfolding runProxy_data by simp
  show ?thesis
    unfolding run same using 1 2 3 4[unfolded run same] 5 6 7 8 by (intro conjI)
qed

theorem upstream_error_witness:
  "\<not> headersSent freshResponse
   \<and> statusCode (onProxyError freshResponse ''connect ECONNREFUSED'') = 502
   \<and> body (onProxyError freshResponse ''connect ECONNREFUSED'')
       = Some (JsonObject [(''error'', ''Stream unavailable''), (''details'', ''connect ECONNREFUSED'')])
   \<and> statusCode (runProxy freshResponse [UpstreamResponse partialContent, UpstreamError ''socket hang up'']) = 502
   \<and> headersSent streamingResponse
   \<and> onProxyError streamingResponse ''read ECONNRESET'' = streamingResponse
   \<and> statusCode (runProxy freshResponse
        (UpstreamResponse partialContent # map UpstreamData [''chunk 1'', ''chunk 2'']
           @ [UpstreamError ''read ECONNRESET''])) = 206"
proof -
  have a: "\<not> headersSent freshResponse" by (simp add: freshResponse_def)
  have b: "headersSent streamingResponse" by (simp add: streamingResponse_def)
  have s: "up_statusCode partialContent = 206" by (simp add: partialContent_def)
  note m1 = upstream_error[where res = freshResponse and message = "''connect ECONNREFUSED''"]
  note m2 = upstream_error[where res = streamingResponse and message = "''read ECONNRESET''"]
  note m3 = upstream_error[where res = freshResponse and message = "''socket hang up''"
              and proxyRes = partialContent]
  note m4 = upstream_error[where res = freshResponse and message = "''read ECONNRESET''"
              and proxyRes = partialContent and c = "''chunk 1''" and cs = "[''chunk 2'']"]
  from m1[THEN conjunct1, rule_format, OF a]
  have 1: "statusCode (onProxyError freshResponse ''connect ECONNREFUSED'') = 502"
    and 2: "body (onProxyError freshResponse ''connect ECONNREFUSED'')
       = Some (JsonObject [(''error'', ''Stream unavailable''), (''details'', ''connect ECONNREFUSED'')])"
    by simp_all
  from m2[THEN conjunct2, THEN conjunct1, rule_format, OF b]
  have 3: "onProxyError streamingResponse ''read ECONNRESET'' = streamingResponse" .
  from m3[THEN conjunct2, THEN conjunct2, THEN conjunct1, rule_format, OF a]
  have 4: "statusCode (runProxy freshResponse [UpstreamResponse partialContent, UpstreamError ''socket hang up'']) = 502"
    by (rule conjunct1)
  from m4[THEN conjunct2, THEN conjunct2, THEN conjunct2, THEN conjunct2, THEN conjunct1]
  have 5: "statusCode (runProxy freshResponse
        (UpstreamResponse partialContent # map UpstreamData [''chunk 1'', ''chunk 2'']
           @ [UpstreamError ''read ECONNRESET''])) = 206"
    unfolding s .
  from a 1 2 4 b 3 5 show ?thesis by (intro conjI)
qed

section \<open>The series list and the search text\<close>

lemma contentView_SeriesList:
  "contentView st = SeriesListView ss \<Longrightarrow>
   selectedSeries st = None \<and> isSeriesView (filteredChannels st)
   \<and> \<not> includes_str (searchQuery st) ''S'' \<and> ss = groupedSeries (filteredChannels st)"
  by (auto simp: contentView_def split: option.splits if_splits)

lemma handle_keeps:
  assumes "handle st ev = Some st'"
    and "selectedSeries st \<noteq> None \<longrightarrow> \<not> includes_str (searchQuery st) ''S''"
  shows "selectedSeries st' \<noteq> None \<longrightarrow> \<not> includes_str (searchQuery st') ''S''"
proof (cases ev)
  case (CategoryClick c)
  with assms(1) show ?thesis by (auto simp: handle_def split: if_splits)
next
  case BackClick
  with assms show ?thesis by (auto simp: handle_def split: option.splits if_splits)
next
  case (SearchChange q)
  with assms(1) show ?thesis by (auto simp: handle_def split: option.splits)
next
  case (SeriesClick s)
  with assms(1) obtain ss where v: "contentView st = SeriesListView ss"
    and s': "st' = st\<lparr>selectedSeries := Some s\<rparr>"
    by (auto simp: handle_def split: View.splits if_splits)
  from contentView_SeriesList[OF v] s' show ?thesis by simp
next
  case (SeasonClick n)
  with assms show ?thesis by (auto simp: handle_def split: View.splits if_splits)
next
  case (ChannelClick c)
  with assms show ?thesis by (auto simp: handle_def split: View.splits if_splits)
next
  case ClosePlayer
  with assms show ?thesis by (auto simp: handle_def split: option.splits)
next
  case ToggleSidebar
  with assms show ?thesis by (auto simp: handle_def)
qed

lemma reachable_series_query:
  "reachable st \<Longrightarrow> selectedSeries st \<noteq> None \<longrightarrow> \<not> includes_str (searchQuery st) ''S''"
proof (induction rule: reachable.induct)
  case (loaded chans cat)
  show ?case by (simp add: loadedState_def)
next
  case (step st ev st')
  from handle_keeps[OF step.hyps(2) step.IH] show ?case .
qed

lemma isSeriesView_nonempty: "isSeriesView fc \<Longrightarrow> fc \<noteq> []"
  by (auto simp: isSeriesView_iff)

text \<open>
  Claim C10. In every state the application reaches, the grid of series is shown only if
  the grouping mode is series and the search text has no capital \<open>S\<close>; with a capital \<open>S\<close> in
  the search text the standard view is shown, which is the flat grid of the filtered
  channels whenever the grouping mode is series.
\<close>

theorem series_list_needs_no_capital_S:
  "reachable st \<Longrightarrow>
   (\<forall>ss. contentView st = SeriesListView ss \<longrightarrow>
      isSeriesView (filteredChannels st) \<and> \<not> includes_str (searchQuery st) ''S'')
   \<and> (includes_str (searchQuery st) ''S'' \<longrightarrow>
        contentView st = (if filteredChannels st = [] then NoContentView
                          else ChannelGridView (filteredChannels st)))
   \<and> (isSeriesView (filteredChannels st) \<and> includes_str (searchQuery st) ''S'' \<longrightarrow>
        contentView st = ChannelGridView (filteredChannels st))"
proof (intro conjI allI impI)
  fix ss assume "contentView st = SeriesListView ss"
  from contentView_SeriesList[OF this]
  show "isSeriesView (filteredChannels st)" and "\<not> includes_str (searchQuery st) ''S''"
    by simp_all
next
  assume r: "reachable st" and s: "includes_str (searchQuery st) ''S''"
  from reachable_series_query[OF r] s have "selectedSeries st = None" by blast
  with s show "contentView st = (if filteredChannels st = [] then NoContentView
                          else ChannelGridView (filteredChannels st))"
    by (simp add: contentView_def)
next
  assume r: "reachable st"
    and s: "isSeriesView (filteredChannels st) \<and> includes_str (searchQuery st) ''S''"
  from reachable_series_query[OF r] s have "selectedSeries st = None" by blast
  with s isSeriesView_nonempty[of "filteredChannels st"]
  show "contentView st = ChannelGridView (filteredChannels st)"
    by (simp add: contentView_def)
qed

theorem series_list_needs_no_capital_S_witness:
  "reachable searchingUpper
   \<and> isSeriesView (filteredChannels searchingUpper)
   \<and> includes_str (searchQuery searchingUpper) ''S''
   \<and> contentView searchingUpper = ChannelGridView (filteredChannels searchingUpper)
   \<and> filteredChannels searchingLower = filteredChannels searchingUpper
   \<and> contentView searchingLower = SeriesListView (groupedSeries (filteredChannels searchingLower))"
proof -
  have h: "handle (loadedState (parseM3U playlist5) ''Series'') (SearchChange ''S01'')
             = Some searchingUpper"
    by (simp add: handle_def loadedState_def searchingUpper_def)
  have r: "reachable searchingUpper"
    by (rule reachable.step[OF reachable.loaded h])
  have v: "isSeriesView (filteredChannels searchingUpper)" by code_simp
  have s: "includes_str (searchQuery searchingUpper) ''S''" by code_simp
  have e: "filteredChannels searchingLower = filteredChannels searchingUpper" by code_simp
  have l: "contentView searchingLower = SeriesListView (groupedSeries (filteredChannels searchingLower))"
  proof -
    have "\<not> includes_str (searchQuery searchingLower) ''S''" by code_simp
    moreover have "selectedSeries searchingLower = None"
      by (simp add: searchingLower_def loadedState_def)
    moreover have "isSeriesView (filteredChannels searchingLower)" unfolding e by (rule v)
    ultimately show ?thesis by (simp add: contentView_def)
  qed
  from series_list_needs_no_capital_S[OF r, THEN conjunct2, THEN conjunct2, rule_format, OF conjI[OF v s]]
  have c: "contentView searchingUpper = ChannelGridView (filteredChannels searchingUpper)" .
  from r v s c e l show ?thesis by (intro conjI)
qed

end
